theory Spec2Isabelle
  imports Complex_Main "HOL-Library.Word"
begin

section \<open>The CPU stress generator of \<open>main.py\<close>\<close>

text \<open>
  The model covers \<open>cpu_worker\<close>, \<open>start_cpu_stress\<close>, \<open>stop_cpu_stress\<close> and
  \<open>stress_status\<close>. The module-level globals of \<open>main.py\<close> are the first five fields of
  the record \<open>sys\<close>; the objects they refer to (the two \<open>multiprocessing.Value\<close> cells of
  every run and the worker processes) live in the stores \<open>counters\<close>, \<open>flags\<close> and
  \<open>procs\<close>, addressed by their index, so that a superseded run keeps its own cells.

  Wall-clock readings (\<open>time.time()\<close>, a Python float) are idealised as rationals.
  The environment supplies them: every operation takes the readings it makes as
  arguments.
\<close>

type_synonym time = rat
type_synonym addr = nat
type_synonym pid = nat

subsection \<open>The feature gate\<close>

text \<open>\<open>os.environ.get("STRESS_TEST_FLAG", "").lower() == "true"\<close>; the variable is
  \<open>None\<close> when unset. Lower-casing acts on the ASCII capitals.\<close>

definition lower_chr :: "char \<Rightarrow> char" where
  "lower_chr c = (let n = (of_char c :: nat) in if 65 \<le> n \<and> n \<le> 90 then char_of (n + 32) else c)"

definition lower_str :: "string \<Rightarrow> string" where
  "lower_str cs = map lower_chr cs"

definition feature_enabled :: "string option \<Rightarrow> bool" where
  "feature_enabled env = (lower_str (case env of None \<Rightarrow> [] | Some v \<Rightarrow> v) = ''true'')"

subsection \<open>Shared memory and the worker\<close>

text \<open>\<open>multiprocessing.Value('i', 0)\<close> is a C \<open>int\<close> in shared memory guarded by a lock;
  \<open>sv_lock\<close> is the process holding the lock. \<open>multiprocessing.Value('b', False)\<close> is a
  C \<open>signed char\<close>; nobody takes its lock across statements, so only its value is kept.\<close>

record shared_int =
  sv_value :: "32 word"
  sv_lock :: "pid option"

text \<open>Control points of \<open>cpu_worker\<close>, named by source line. Line 38,
  \<open>global_iterations.value += 1\<close>, is a read, a write and the release that ends the
  \<open>with\<close> block of line 37.\<close>

datatype wpc = L32 | L33 | L35 | L36 | L37 | L38_load | L38_store | L38_release | L39 | L40 | Returned

text \<open>The locals of one \<open>cpu_worker\<close> call. \<open>w_counter\<close> and \<open>w_flag\<close> are the arguments
  \<open>global_iterations\<close> and \<open>stop_flag\<close>. \<open>w_start_busy\<close> is unassigned (here 0) until line 33
  runs. \<open>w_incs\<close> and \<open>w_sleeps\<close> are history variables: how often this worker completed
  the write of line 38 and the \<open>time.sleep\<close> of line 40.\<close>

record worker =
  w_end_time :: time
  w_load :: int
  w_cycle_time :: time
  w_counter :: addr
  w_flag :: addr
  w_busy_time :: time
  w_idle_time :: time
  w_start_busy :: time
  w_tmp :: int
  w_pc :: wpc
  w_incs :: nat
  w_sleeps :: nat

text \<open>Lines 30 and 31, up to the first test of the loop.\<close>

definition cpu_worker_init :: "time \<Rightarrow> int \<Rightarrow> time \<Rightarrow> addr \<Rightarrow> addr \<Rightarrow> worker" where
  "cpu_worker_init end_time load cycle_time gi sf =
     (let busy_time = cycle_time * (of_int load / 100);
          idle_time = cycle_time - busy_time
      in \<lparr>w_end_time = end_time, w_load = load, w_cycle_time = cycle_time,
          w_counter = gi, w_flag = sf, w_busy_time = busy_time, w_idle_time = idle_time,
          w_start_busy = 0, w_tmp = 0, w_pc = L32, w_incs = 0, w_sleeps = 0\<rparr>)"

text \<open>One step of worker \<open>me\<close>; \<open>now\<close> is what \<open>time.time()\<close> returns if the step reads
  the clock. A worker at line 37 whose lock is taken waits (the state is unchanged).\<close>

definition worker_step :: "pid \<Rightarrow> time \<Rightarrow> shared_int list \<Rightarrow> 8 word list \<Rightarrow> worker
    \<Rightarrow> shared_int list \<times> worker" where
  "worker_step me now cs fs w =
     (let stop = (fs ! w_flag w \<noteq> 0); c = cs ! w_counter w in
      case w_pc w of
        L32 \<Rightarrow> (cs, w\<lparr>w_pc := (if now < w_end_time w \<and> \<not> stop then L33 else Returned)\<rparr>)
      | L33 \<Rightarrow> (cs, w\<lparr>w_start_busy := now, w_pc := L35\<rparr>)
      | L35 \<Rightarrow> (cs, w\<lparr>w_pc := (if now - w_start_busy w < w_busy_time w \<and> \<not> stop then L36 else L39)\<rparr>)
      | L36 \<Rightarrow> (cs, w\<lparr>w_pc := L37\<rparr>)
      | L37 \<Rightarrow> (case sv_lock c of
                  None \<Rightarrow> (cs[w_counter w := c\<lparr>sv_lock := Some me\<rparr>], w\<lparr>w_pc := L38_load\<rparr>)
                | Some _ \<Rightarrow> (cs, w))
      | L38_load \<Rightarrow> (cs, w\<lparr>w_tmp := sint (sv_value c), w_pc := L38_store\<rparr>)
      | L38_store \<Rightarrow> (cs[w_counter w := c\<lparr>sv_value := word_of_int (w_tmp w + 1)\<rparr>],
                      w\<lparr>w_pc := L38_release, w_incs := w_incs w + 1\<rparr>)
      | L38_release \<Rightarrow> (cs[w_counter w := c\<lparr>sv_lock := None\<rparr>], w\<lparr>w_pc := L35\<rparr>)
      | L39 \<Rightarrow> (cs, w\<lparr>w_pc := (if 0 < w_idle_time w \<and> \<not> stop then L40 else L32)\<rparr>)
      | L40 \<Rightarrow> (cs, w\<lparr>w_pc := L32, w_sleeps := w_sleeps w + 1\<rparr>)
      | Returned \<Rightarrow> (cs, w))"

subsection \<open>The controller state\<close>

text \<open>The dictionary \<open>cpu_stress_status_data\<close>: each of its six keys is present or not.\<close>

record status_data =
  sd_running :: "bool option"
  sd_start_time :: "time option"
  sd_duration :: "int option"
  sd_end_time :: "time option"
  sd_load :: "int option"
  sd_workers :: "nat option"

definition empty_dict :: status_data where
  "empty_dict = \<lparr>sd_running = None, sd_start_time = None, sd_duration = None,
     sd_end_time = None, sd_load = None, sd_workers = None\<rparr>"

text \<open>A process: the worker it runs, and whether \<open>terminate()\<close> has signalled it.\<close>

record proc =
  p_worker :: worker
  p_signalled :: bool

record sys =
  cpu_stress_processes :: "pid list"
  global_iterations :: "addr option"
  stop_flag :: "addr option"
  cpu_stress_end_time :: "time option"
  cpu_stress_status_data :: status_data
  counters :: "shared_int list"
  flags :: "8 word list"
  procs :: "proc list"

definition sys_init :: sys where
  "sys_init = \<lparr>cpu_stress_processes = [], global_iterations = None, stop_flag = None,
     cpu_stress_end_time = None, cpu_stress_status_data = empty_dict,
     counters = [], flags = [], procs = []\<rparr>"

datatype error = HTTPException int string | KeyError string

text \<open>What an operation does to the outside, in order.\<close>

datatype effect =
    SetStop addr
  | Join pid "time option"
  | Terminate pid
  | AllocCounter addr
  | AllocFlag addr
  | Spawn pid

record start_reply =
  sr_message :: string
  sr_duration :: int
  sr_load :: int
  sr_workers :: nat

record snapshot =
  running :: bool
  remaining_seconds :: int
  iterations :: int

subsection \<open>\<open>start_cpu_stress\<close>\<close>

text \<open>Lines 88 and 89: \<open>terminate()\<close> on every handle.\<close>

fun terminate_all :: "pid list \<Rightarrow> proc list \<Rightarrow> proc list" where
  "terminate_all [] ps = ps"
| "terminate_all (p # rest) ps = terminate_all rest (ps[p := (ps ! p)\<lparr>p_signalled := True\<rparr>])"

text \<open>Lines 112 to 116: create, start and record one process per round.\<close>

fun spawn_workers :: "nat \<Rightarrow> worker \<Rightarrow> pid list \<times> proc list \<Rightarrow> pid list \<times> proc list" where
  "spawn_workers 0 w (hs, ps) = (hs, ps)"
| "spawn_workers (Suc n) w (hs, ps) =
     spawn_workers n w (hs @ [length ps], ps @ [\<lparr>p_worker = w, p_signalled = False\<rparr>])"

text \<open>\<open>os.cpu_count() or 1\<close>.\<close>

definition worker_count :: "nat option \<Rightarrow> nat" where
  "worker_count ncpu = (case ncpu of None \<Rightarrow> 1 | Some n \<Rightarrow> if n = 0 then 1 else n)"

text \<open>\<open>env\<close> is the value of STRESS_TEST_FLAG, \<open>t_end\<close> and \<open>t_start\<close> the clock readings
  of lines 95 and 104, \<open>ncpu\<close> the result of \<open>os.cpu_count()\<close>.\<close>

definition start_cpu_stress :: "string option \<Rightarrow> int \<Rightarrow> int \<Rightarrow> time \<Rightarrow> time \<Rightarrow> nat option \<Rightarrow> sys
    \<Rightarrow> (error + start_reply) \<times> effect list \<times> sys" where
  "start_cpu_stress env duration load t_end t_start ncpu s =
     (if \<not> feature_enabled env
      then (Inl (HTTPException 403 ''CPU stress test feature is disabled''), [], s)
      else if duration \<le> 0 \<or> \<not> (0 \<le> load \<and> load \<le> 100)
      then (Inl (HTTPException 400 ''Invalid duration or load parameter''), [], s)
      else
        let old = cpu_stress_processes s;
            ps1 = (if old \<noteq> [] then terminate_all old (procs s) else procs s);
            gi = length (counters s);
            sf = length (flags s);
            end_time = t_end + of_int duration;
            workers = worker_count ncpu;
            cycle_time = 1 / 10;
            sd = \<lparr>sd_running = Some True, sd_start_time = Some t_start,
                  sd_duration = Some duration, sd_end_time = Some end_time,
                  sd_load = Some load, sd_workers = Some workers\<rparr>;
            (hs, ps2) = spawn_workers workers (cpu_worker_init end_time load cycle_time gi sf) ([], ps1)
        in (Inr \<lparr>sr_message = ''CPU stress test started'', sr_duration = duration,
                 sr_load = load, sr_workers = workers\<rparr>,
            map Terminate old @ [AllocCounter gi, AllocFlag sf] @ map Spawn hs,
            \<lparr>cpu_stress_processes = hs, global_iterations = Some gi, stop_flag = Some sf,
             cpu_stress_end_time = Some end_time, cpu_stress_status_data = sd,
             counters = counters s @ [\<lparr>sv_value = 0, sv_lock = None\<rparr>],
             flags = flags s @ [0], procs = ps2\<rparr>))"

subsection \<open>\<open>stop_cpu_stress\<close>\<close>

definition stop_cpu_stress :: "string option \<Rightarrow> sys \<Rightarrow> (error + string) \<times> effect list \<times> sys" where
  "stop_cpu_stress env s =
     (if \<not> feature_enabled env
      then (Inl (HTTPException 403 ''CPU stress test feature is disabled''), [], s)
      else
        (Inr ''CPU stress test stopped'',
         (case stop_flag s of None \<Rightarrow> [] | Some sf \<Rightarrow> [SetStop sf])
           @ map (\<lambda>p. Join p (Some 1)) (cpu_stress_processes s),
         s\<lparr>flags := (case stop_flag s of None \<Rightarrow> flags s | Some sf \<Rightarrow> (flags s)[sf := 1]),
           cpu_stress_status_data := (cpu_stress_status_data s)\<lparr>sd_running := Some False\<rparr>,
           cpu_stress_processes := []\<rparr>))"

subsection \<open>\<open>stress_status\<close>\<close>

text \<open>\<open>int(x)\<close> on a float: the integer part, rounding toward zero.\<close>

definition py_int :: "rat \<Rightarrow> int" where
  "py_int x = (if 0 \<le> x then \<lfloor>x\<rfloor> else \<lceil>x\<rceil>)"

text \<open>Lines 156 to 159, the local \<open>remaining\<close>; the subscript of line 157 raises when the
  key is missing.\<close>

definition remaining_time :: "time \<Rightarrow> status_data \<Rightarrow> error + rat" where
  "remaining_time now sd =
     (if (case sd_running sd of None \<Rightarrow> False | Some b \<Rightarrow> b)
      then (case sd_end_time sd of
              None \<Rightarrow> Inl (KeyError ''end_time'')
            | Some e \<Rightarrow> Inr (max 0 (e - now)))
      else Inr 0)"

definition stress_status :: "string option \<Rightarrow> time \<Rightarrow> sys \<Rightarrow> (error + snapshot) \<times> effect list \<times> sys" where
  "stress_status env now s =
     (if \<not> feature_enabled env
      then (Inl (HTTPException 403 ''CPU stress test feature is disabled''), [], s)
      else
        let sd = cpu_stress_status_data s in
        case remaining_time now sd of
          Inl e \<Rightarrow> (Inl e, [], s)
        | Inr remaining \<Rightarrow>
            let its = (case global_iterations s of
                         None \<Rightarrow> 0
                       | Some gi \<Rightarrow> sint (sv_value (counters s ! gi)));
                sd' = (if (case sd_end_time sd of None \<Rightarrow> 0 | Some e \<Rightarrow> e) \<le> now
                       then sd\<lparr>sd_running := Some False\<rparr> else sd)
            in (Inr \<lparr>running = (case sd_running sd' of None \<Rightarrow> False | Some b \<Rightarrow> b),
                     remaining_seconds = py_int remaining, iterations = its\<rparr>,
                [], s\<lparr>cpu_stress_status_data := sd'\<rparr>))"

subsection \<open>Executions\<close>

text \<open>A worker process takes a step unless it has been signalled.\<close>

definition work :: "pid \<Rightarrow> time \<Rightarrow> sys \<Rightarrow> sys" where
  "work p now s =
     (if p < length (procs s) \<and> \<not> p_signalled (procs s ! p)
      then (case worker_step p now (counters s) (flags s) (p_worker (procs s ! p)) of
              (cs, w) \<Rightarrow> s\<lparr>counters := cs, procs := (procs s)[p := (procs s ! p)\<lparr>p_worker := w\<rparr>]\<rparr>)
      else s)"

text \<open>The three endpoints run to completion on one event loop, so they are atomic
  with respect to each other; workers run in between.\<close>

datatype event =
    Start "string option" int int time time "nat option"
  | Stop "string option"
  | Status "string option" time
  | Work pid time

fun apply_event :: "event \<Rightarrow> sys \<Rightarrow> sys" where
  "apply_event (Start env d l t1 t2 n) s = snd (snd (start_cpu_stress env d l t1 t2 n s))"
| "apply_event (Stop env) s = snd (snd (stop_cpu_stress env s))"
| "apply_event (Status env now) s = snd (snd (stress_status env now s))"
| "apply_event (Work p now) s = work p now s"

fun run :: "event list \<Rightarrow> sys \<Rightarrow> sys" where
  "run [] s = s"
| "run (e # es) s = run es (apply_event e s)"

subsection \<open>Reachable states and their invariants\<close>

text \<open>A call of \<open>start_cpu_stress\<close> that passes the gate and the validation.\<close>

definition started :: "event \<Rightarrow> bool" where
  "started e = (case e of Start env d l t1 t2 n \<Rightarrow> feature_enabled env \<and> 0 < d \<and> 0 \<le> l \<and> l \<le> 100 | _ \<Rightarrow> False)"

text \<open>A running test has a deadline: line 157 finds its key.\<close>

definition dict_ok :: "sys \<Rightarrow> bool" where
  "dict_ok s = (sd_running (cpu_stress_status_data s) = Some True \<longrightarrow> sd_end_time (cpu_stress_status_data s) \<noteq> None)"

text \<open>Every reference points into its store, and the handles the controller holds are
  processes working on the controller's current counter and flag.\<close>

definition refs_ok :: "sys \<Rightarrow> bool" where
  "refs_ok s =
     ((\<forall>p < length (procs s).
          w_counter (p_worker (procs s ! p)) < length (counters s)
        \<and> w_flag (p_worker (procs s ! p)) < length (flags s))
    \<and> (\<forall>h \<in> set (cpu_stress_processes s).
          h < length (procs s)
        \<and> global_iterations s = Some (w_counter (p_worker (procs s ! h)))
        \<and> stop_flag s = Some (w_flag (p_worker (procs s ! h))))
    \<and> (\<forall>gi. global_iterations s = Some gi \<longrightarrow> gi < length (counters s))
    \<and> (\<forall>sf. stop_flag s = Some sf \<longrightarrow> sf < length (flags s)))"

text \<open>No test is marked as running.\<close>

definition idle :: "sys \<Rightarrow> bool" where
  "idle s = (sd_running (cpu_stress_status_data s) \<noteq> Some True)"


text \<open>The clock readings worker \<open>p\<close> is given in an execution, in order.\<close>

fun work_times :: "pid \<Rightarrow> event list \<Rightarrow> time list" where
  "work_times p [] = []"
| "work_times p (Work q t # es) = (if q = p then t # work_times p es else work_times p es)"
| "work_times p (e # es) = work_times p es"



text \<open>What a worker keeps true whose deadline is not later than any reading to come, from
  its launch on.\<close>

definition overdue :: "worker \<Rightarrow> time list \<Rightarrow> bool" where
  "overdue w ts =
     (w_incs w = 0 \<and> w_pc w \<in> {L32, Returned} \<and> (\<forall>t \<in> set ts. w_end_time w \<le> t))"

text \<open>An upper bound on the steps a worker still takes once both tests of its body can only fail.\<close>

fun steps_left :: "wpc \<Rightarrow> nat" where
  "steps_left Returned = 0"
| "steps_left L32 = 1"
| "steps_left L40 = 2"
| "steps_left L39 = 3"
| "steps_left L35 = 4"
| "steps_left L38_release = 5"
| "steps_left L38_store = 6"
| "steps_left L38_load = 7"
| "steps_left L37 = 8"
| "steps_left L36 = 9"
| "steps_left L33 = 5"

text \<open>The lock of the worker's counter is its own inside the \<open>with\<close> block and free
  outside: no other process holds it.\<close>

definition lock_avail :: "pid \<Rightarrow> shared_int list \<Rightarrow> worker \<Rightarrow> bool" where
  "lock_avail me cs w =
     (w_counter w < length cs
      \<and> sv_lock (cs ! w_counter w)
          = (if w_pc w \<in> {L38_load, L38_store, L38_release} then Some me else None))"

text \<open>At reading \<open>t\<close> both loop tests of the worker fail: the stop flag is set, or the
  deadline and the end of the current busy phase have passed.\<close>

definition exit_at :: "8 word list \<Rightarrow> worker \<Rightarrow> time \<Rightarrow> bool" where
  "exit_at fs w t =
     (fs ! w_flag w \<noteq> 0
      \<or> (w_pc w \<noteq> L33 \<and> w_end_time w \<le> t \<and> w_start_busy w + w_busy_time w \<le> t))"

text \<open>The increments all workers bound to counter \<open>a\<close> have completed.\<close>

definition incs_on :: "addr \<Rightarrow> proc list \<Rightarrow> nat" where
  "incs_on a ps =
     sum_list (map (\<lambda>q. if w_counter (p_worker q) = a then w_incs (p_worker q) else 0) ps)"

text \<open>Inside the \<open>with\<close> block of line 37.\<close>

definition in_with :: "wpc \<Rightarrow> bool" where
  "in_with pc = (pc = L38_load \<or> pc = L38_store \<or> pc = L38_release)"

text \<open>The lock discipline: a counter holds the number of increments completed on it
  (modulo \<open>2^32\<close>); a worker inside the \<open>with\<close> block holds the lock of its counter, and
  only such a worker holds a lock; the value a worker has read at line 38 is still the
  value of the counter when it writes.\<close>

definition lock_ok :: "sys \<Rightarrow> bool" where
  "lock_ok s =
     ((\<forall>a < length (counters s). sv_value (counters s ! a) = of_nat (incs_on a (procs s)))
    \<and> (\<forall>p < length (procs s). in_with (w_pc (p_worker (procs s ! p))) \<longrightarrow>
          sv_lock (counters s ! w_counter (p_worker (procs s ! p))) = Some p)
    \<and> (\<forall>p < length (procs s). w_pc (p_worker (procs s ! p)) = L38_store \<longrightarrow>
          w_tmp (p_worker (procs s ! p))
            = sint (sv_value (counters s ! w_counter (p_worker (procs s ! p)))))
    \<and> (\<forall>a < length (counters s). \<forall>p. sv_lock (counters s ! a) = Some p \<longrightarrow>
          p < length (procs s) \<and> w_counter (p_worker (procs s ! p)) = a
        \<and> in_with (w_pc (p_worker (procs s ! p)))))"

text \<open>An execution that brings the counter to the largest C int: one worker at full
  load, the clock standing still inside its first busy phase, for \<open>2^31 - 1\<close> rounds of
  the busy loop, and on to the write of the next round.\<close>

definition wrap_run :: "event list" where
  "wrap_run = Start (Some ''true'') 1 100 0 0 (Some 1) # replicate 12884901888 (Work 0 0)"

section \<open>Parameter validation\<close>

lemma feature_enabled_true: "feature_enabled (Some ''true'')"
  by (simp add: feature_enabled_def lower_str_def lower_chr_def)



section \<open>Invariants of reachable states\<close>

lemma dict_ok_init: "dict_ok sys_init"
  by (simp add: dict_ok_def sys_init_def empty_dict_def)

lemma work_ctl [simp]:
  "cpu_stress_status_data (work p t s) = cpu_stress_status_data s"
  "cpu_stress_processes (work p t s) = cpu_stress_processes s"
  "global_iterations (work p t s) = global_iterations s"
  "stop_flag (work p t s) = stop_flag s"
  "cpu_stress_end_time (work p t s) = cpu_stress_end_time s"
  "flags (work p t s) = flags s"
  by (simp_all add: work_def split: prod.splits)

lemma dict_ok_step: "dict_ok s \<Longrightarrow> dict_ok (apply_event e s)"
  by (cases e) (auto simp: dict_ok_def start_cpu_stress_def stop_cpu_stress_def stress_status_def
      remaining_time_def Let_def split: prod.splits sum.splits option.splits if_splits)

lemma dict_ok_run: "dict_ok s \<Longrightarrow> dict_ok (run evs s)"
  by (induction evs arbitrary: s) (simp_all add: dict_ok_step)

lemma dict_ok_reachable: "dict_ok (run evs sys_init)"
  by (simp add: dict_ok_run dict_ok_init)

lemma py_int_nonneg: "0 \<le> x \<Longrightarrow> py_int x = \<lfloor>x\<rfloor>"
  by (simp add: py_int_def)

lemma status_ok:
  assumes "feature_enabled env" "dict_ok s"
  shows "stress_status env now s =
     (Inr \<lparr>running = (sd_running (cpu_stress_status_data s) = Some True
                        \<and> \<not> (case sd_end_time (cpu_stress_status_data s) of None \<Rightarrow> 0 | Some e \<Rightarrow> e) \<le> now),
           remaining_seconds = (if sd_running (cpu_stress_status_data s) = Some True
               then \<lfloor>max 0 (the (sd_end_time (cpu_stress_status_data s)) - now)\<rfloor> else 0),
           iterations = (case global_iterations s of None \<Rightarrow> 0
                         | Some gi \<Rightarrow> sint (sv_value (counters s ! gi)))\<rparr>,
      [],
      s\<lparr>cpu_stress_status_data :=
          (if (case sd_end_time (cpu_stress_status_data s) of None \<Rightarrow> 0 | Some e \<Rightarrow> e) \<le> now
           then (cpu_stress_status_data s)\<lparr>sd_running := Some False\<rparr>
           else cpu_stress_status_data s)\<rparr>)"
  using assms
  by (auto simp: stress_status_def remaining_time_def dict_ok_def Let_def py_int_def
      split: option.splits)

lemma terminate_all_length [simp]: "length (terminate_all hs ps) = length ps"
  by (induction hs arbitrary: ps) simp_all

lemma terminate_all_worker [simp]:
  "p_worker (terminate_all hs ps ! i) = p_worker (ps ! i)"
proof (induction hs arbitrary: ps)
  case Nil
  show ?case by simp
next
  case (Cons h hs)
  show ?case
  proof (cases "h < length ps")
    case True
    then show ?thesis by (simp add: Cons.IH nth_list_update)
  next
    case False
    then have "ps[h := (ps ! h)\<lparr>p_signalled := True\<rparr>] = ps"
      by (intro list_update_beyond) simp
    then show ?thesis by (simp add: Cons.IH)
  qed
qed


lemma spawn_workers_eq:
  "spawn_workers n w (hs, ps) =
     (hs @ [length ps ..< length ps + n], ps @ replicate n \<lparr>p_worker = w, p_signalled = False\<rparr>)"
proof (induction n arbitrary: hs ps)
  case 0
  show ?case by simp
next
  case (Suc n)
  show ?case
    by (simp add: Suc.IH upt_conv_Cons replicate_app_Cons_same)
qed

lemma worker_step_refs [simp]:
  "w_counter (snd (worker_step me now cs fs w)) = w_counter w"
  "w_flag (snd (worker_step me now cs fs w)) = w_flag w"
  "w_end_time (snd (worker_step me now cs fs w)) = w_end_time w"
  "w_load (snd (worker_step me now cs fs w)) = w_load w"
  "w_busy_time (snd (worker_step me now cs fs w)) = w_busy_time w"
  "w_idle_time (snd (worker_step me now cs fs w)) = w_idle_time w"
  "w_cycle_time (snd (worker_step me now cs fs w)) = w_cycle_time w"
  "length (fst (worker_step me now cs fs w)) = length cs"
  by (simp_all add: worker_step_def Let_def split: wpc.splits option.splits)

lemma work_procs_length [simp]: "length (procs (work p t s)) = length (procs s)"
  by (simp add: work_def split: prod.splits)

lemma work_counters_length [simp]: "length (counters (work p t s)) = length (counters s)"
proof -
  have "length (fst (worker_step p t (counters s) (flags s) (p_worker (procs s ! p)))) = length (counters s)"
    by simp
  then show ?thesis
    by (cases "worker_step p t (counters s) (flags s) (p_worker (procs s ! p))")
       (simp add: work_def)
qed

lemma work_worker:
  "p_worker (procs (work p t s) ! q) =
     (if q = p \<and> p < length (procs s) \<and> \<not> p_signalled (procs s ! p)
      then snd (worker_step p t (counters s) (flags s) (p_worker (procs s ! p)))
      else p_worker (procs s ! q))"
  by (auto simp: work_def nth_list_update split: prod.splits)

lemma work_signalled [simp]:
  "p_signalled (procs (work p t s) ! q) = p_signalled (procs s ! q)"
  by (auto simp: work_def nth_list_update split: prod.splits)

lemma refs_ok_init: "refs_ok sys_init"
  by (simp add: refs_ok_def sys_init_def)

lemma refs_ok_work: "refs_ok s \<Longrightarrow> refs_ok (work p t s)"
  by (auto simp: refs_ok_def work_worker)

lemma start_accepted:
  assumes "feature_enabled env" "0 < d" "0 \<le> l" "l \<le> 100"
  shows "start_cpu_stress env d l t1 t2 n s =
    (Inr \<lparr>sr_message = ''CPU stress test started'', sr_duration = d, sr_load = l,
          sr_workers = worker_count n\<rparr>,
     map Terminate (cpu_stress_processes s)
       @ [AllocCounter (length (counters s)), AllocFlag (length (flags s))]
       @ map Spawn [length (procs s) ..< length (procs s) + worker_count n],
     \<lparr>cpu_stress_processes = [length (procs s) ..< length (procs s) + worker_count n],
      global_iterations = Some (length (counters s)),
      stop_flag = Some (length (flags s)),
      cpu_stress_end_time = Some (t1 + of_int d),
      cpu_stress_status_data = \<lparr>sd_running = Some True, sd_start_time = Some t2,
         sd_duration = Some d, sd_end_time = Some (t1 + of_int d), sd_load = Some l,
         sd_workers = Some (worker_count n)\<rparr>,
      counters = counters s @ [\<lparr>sv_value = 0, sv_lock = None\<rparr>],
      flags = flags s @ [0],
      procs = terminate_all (cpu_stress_processes s) (procs s)
        @ replicate (worker_count n)
            \<lparr>p_worker = cpu_worker_init (t1 + of_int d) l (1 / 10) (length (counters s)) (length (flags s)),
             p_signalled = False\<rparr>\<rparr>)"
  using assms by (simp add: start_cpu_stress_def Let_def spawn_workers_eq)

lemma start_rejected:
  assumes "\<not> started (Start env d l t1 t2 n)"
  shows "snd (snd (start_cpu_stress env d l t1 t2 n s)) = s"
  using assms by (auto simp: started_def start_cpu_stress_def)

lemma cpu_worker_init_fields [simp]:
  "w_counter (cpu_worker_init e l c gi sf) = gi"
  "w_flag (cpu_worker_init e l c gi sf) = sf"
  "w_end_time (cpu_worker_init e l c gi sf) = e"
  "w_load (cpu_worker_init e l c gi sf) = l"
  "w_cycle_time (cpu_worker_init e l c gi sf) = c"
  "w_busy_time (cpu_worker_init e l c gi sf) = c * (of_int l / 100)"
  "w_idle_time (cpu_worker_init e l c gi sf) = c - c * (of_int l / 100)"
  "w_pc (cpu_worker_init e l c gi sf) = L32"
  "w_incs (cpu_worker_init e l c gi sf) = 0"
  "w_sleeps (cpu_worker_init e l c gi sf) = 0"
  by (simp_all add: cpu_worker_init_def Let_def)

lemma refs_ok_start: 
  assumes "refs_ok s"
  shows "refs_ok (apply_event (Start env d l t1 t2 n) s)"
proof (cases "started (Start env d l t1 t2 n)")
  case False
  then show ?thesis using assms by (simp add: start_rejected)
next
  case True
  then have a: "feature_enabled env" "0 < d" "0 \<le> l" "l \<le> 100"
    by (simp_all add: started_def)
  show ?thesis
    using assms
    by (auto simp: start_accepted [OF a] refs_ok_def nth_append less_Suc_eq)
qed

lemma refs_ok_step: "refs_ok s \<Longrightarrow> refs_ok (apply_event e s)"
proof (cases e)
  case (Start env d l t1 t2 n)
  assume "refs_ok s"
  then show ?thesis unfolding Start by (rule refs_ok_start)
next
  case (Stop env)
  assume "refs_ok s"
  then show ?thesis
    by (auto simp: Stop refs_ok_def stop_cpu_stress_def split: option.splits)
next
  case (Status env now)
  assume "refs_ok s"
  then show ?thesis
    by (auto simp: Status refs_ok_def stress_status_def Let_def split: sum.splits)
next
  case (Work p t)
  assume "refs_ok s"
  then show ?thesis by (simp add: Work refs_ok_work)
qed

lemma refs_ok_run: "refs_ok s \<Longrightarrow> refs_ok (run evs s)"
  by (induction evs arbitrary: s) (simp_all add: refs_ok_step)

lemma refs_ok_reachable: "refs_ok (run evs sys_init)"
  by (simp add: refs_ok_run refs_ok_init)

lemma stop_ok:
  assumes "feature_enabled env"
  shows "stop_cpu_stress env s =
    (Inr ''CPU stress test stopped'',
     (case stop_flag s of None \<Rightarrow> [] | Some sf \<Rightarrow> [SetStop sf])
       @ map (\<lambda>p. Join p (Some 1)) (cpu_stress_processes s),
     s\<lparr>flags := (case stop_flag s of None \<Rightarrow> flags s | Some sf \<Rightarrow> (flags s)[sf := 1]),
       cpu_stress_status_data := (cpu_stress_status_data s)\<lparr>sd_running := Some False\<rparr>,
       cpu_stress_processes := []\<rparr>)"
  using assms by (simp add: stop_cpu_stress_def)

lemma idle_step: "idle s \<Longrightarrow> \<not> started e \<Longrightarrow> idle (apply_event e s)"
proof (cases e)
  case (Start env d l t1 t2 n)
  assume "idle s" "\<not> started e"
  then show ?thesis by (simp add: Start start_rejected)
next
  case (Stop env)
  assume "idle s"
  then show ?thesis by (simp add: Stop idle_def stop_cpu_stress_def)
next
  case (Status env now)
  assume "idle s"
  then show ?thesis
    by (auto simp: Status idle_def stress_status_def Let_def split: sum.splits)
next
  case (Work p t)
  assume "idle s"
  then show ?thesis by (simp add: Work idle_def)
qed

lemma idle_run: "idle s \<Longrightarrow> list_all (\<lambda>e. \<not> started e) evs \<Longrightarrow> idle (run evs s)"
  by (induction evs arbitrary: s) (simp_all add: idle_step)

lemma idle_status:
  assumes "feature_enabled env" "idle s"
  shows "\<exists>snap. fst (stress_status env now s) = Inr snap \<and> \<not> running snap \<and> remaining_seconds snap = 0"
  using assms
  by (auto simp: stress_status_def remaining_time_def idle_def Let_def py_int_def
      split: option.splits)

lemma no_start_step: "\<not> started e \<Longrightarrow> global_iterations (apply_event e s) = global_iterations s"
  by (cases e) (auto simp: start_rejected stop_cpu_stress_def stress_status_def Let_def split: sum.splits)

lemma no_start_run:
  "list_all (\<lambda>e. \<not> started e) evs \<Longrightarrow> global_iterations (run evs s) = global_iterations s"
  by (induction evs arbitrary: s) (simp_all add: no_start_step)

lemma allocated_step: "global_iterations s \<noteq> None \<Longrightarrow> global_iterations (apply_event e s) \<noteq> None"
  by (cases e) (auto simp: start_cpu_stress_def stop_cpu_stress_def stress_status_def Let_def
      split: sum.splits prod.splits)

lemma allocated_run: "global_iterations s \<noteq> None \<Longrightarrow> global_iterations (run evs s) \<noteq> None"
proof (induction evs arbitrary: s)
  case Nil
  then show ?case by simp
next
  case (Cons e evs)
  from Cons.prems have "global_iterations (apply_event e s) \<noteq> None"
    by (rule allocated_step)
  then have "global_iterations (run evs (apply_event e s)) \<noteq> None"
    by (rule Cons.IH)
  then show ?case by simp
qed

lemma started_step: "started e \<Longrightarrow> global_iterations (apply_event e s) \<noteq> None"
  by (cases e) (auto simp: started_def start_accepted)

lemma started_run:
  "\<not> list_all (\<lambda>e. \<not> started e) evs \<Longrightarrow> global_iterations (run evs s) \<noteq> None"
proof (induction evs arbitrary: s)
  case Nil
  then show ?case by simp
next
  case (Cons e evs)
  show ?case
  proof (cases "started e")
    case True
    then show ?thesis by (simp add: started_step allocated_run)
  next
    case False
    then show ?thesis using Cons by simp
  qed
qed

lemma demo_state:
  "run [Start (Some ''true'') 10 50 0 0 (Some 1)] sys_init =
    \<lparr>cpu_stress_processes = [0], global_iterations = Some 0, stop_flag = Some 0,
      cpu_stress_end_time = Some 10,
      cpu_stress_status_data = \<lparr>sd_running = Some True, sd_start_time = Some 0,
         sd_duration = Some 10, sd_end_time = Some 10, sd_load = Some 50, sd_workers = Some 1\<rparr>,
      counters = [\<lparr>sv_value = 0, sv_lock = None\<rparr>], flags = [0],
      procs = [\<lparr>p_worker = cpu_worker_init 10 50 (1 / 10) 0 0, p_signalled = False\<rparr>]\<rparr>"
  by (simp add: start_accepted feature_enabled_true worker_count_def sys_init_def)

section \<open>Status and stop\<close>




text \<open>
  Claim C9. In every reachable state, with the gate open, the \<open>iterations\<close> field of
  the snapshot is the value of the counter \<open>global_iterations\<close> refers to, read as a
  signed C int, and 0 when there is none; there is none exactly when no call of
  \<open>start_cpu_stress\<close> has been accepted so far; and the counter read is the one every
  process the controller holds works on.
\<close>

theorem status_iterations:
  fixes evs :: "event list" and now :: time and env :: "string option"
  defines "s \<equiv> run evs sys_init"
  assumes gate: "feature_enabled env"
  shows "\<exists>snap. fst (stress_status env now s) = Inr snap
     \<and> iterations snap = (case global_iterations s of None \<Rightarrow> 0
                           | Some gi \<Rightarrow> sint (sv_value (counters s ! gi)))
     \<and> (list_all (\<lambda>e. \<not> started e) evs \<longrightarrow> global_iterations s = None \<and> iterations snap = 0)
     \<and> (\<not> list_all (\<lambda>e. \<not> started e) evs \<longrightarrow> global_iterations s \<noteq> None)
     \<and> (\<forall>gi. global_iterations s = Some gi \<longrightarrow>
           gi < length (counters s)
         \<and> (\<forall>h \<in> set (cpu_stress_processes s).
               h < length (procs s) \<and> w_counter (p_worker (procs s ! h)) = gi))"
proof -
  have ok: "dict_ok s" unfolding s_def by (rule dict_ok_reachable)
  have refs: "refs_ok s" unfolding s_def by (rule refs_ok_reachable)
  have none: "list_all (\<lambda>e. \<not> started e) evs \<Longrightarrow> global_iterations s = None"
    unfolding s_def by (simp add: no_start_run sys_init_def)
  have some: "\<not> list_all (\<lambda>e. \<not> started e) evs \<Longrightarrow> global_iterations s \<noteq> None"
    unfolding s_def by (rule started_run)
  show ?thesis
    using refs none some unfolding status_ok [OF gate ok] refs_ok_def
    by auto
qed

theorem status_iterations_witness:
  "feature_enabled (Some ''true'')
   \<and> list_all (\<lambda>e. \<not> started e) [Stop (Some ''true''), Start (Some ''true'') 0 50 0 0 (Some 1)]
   \<and> (\<exists>snap. fst (stress_status (Some ''true'') 3
          (run [Stop (Some ''true''), Start (Some ''true'') 0 50 0 0 (Some 1)] sys_init)) = Inr snap
        \<and> iterations snap = 0)
   \<and> global_iterations (run [Start (Some ''true'') 10 50 0 0 (Some 1)] sys_init) = Some 0
   \<and> (\<exists>snap. fst (stress_status (Some ''true'') 3
          (run [Start (Some ''true'') 10 50 0 0 (Some 1)] sys_init)) = Inr snap
        \<and> iterations snap =
            sint (sv_value (counters (run [Start (Some ''true'') 10 50 0 0 (Some 1)] sys_init) ! 0)))"
proof -
  have g: "feature_enabled (Some ''true'')" by (rule feature_enabled_true)
  have n: "list_all (\<lambda>e. \<not> started e) [Stop (Some ''true''), Start (Some ''true'') 0 50 0 0 (Some 1)]"
    by (simp add: started_def)
  have a: "global_iterations (run [Start (Some ''true'') 10 50 0 0 (Some 1)] sys_init) = Some 0"
    unfolding demo_state by simp
  show ?thesis
    using g n a
      status_iterations [OF g, where evs = "[Stop (Some ''true''), Start (Some ''true'') 0 50 0 0 (Some 1)]" and now = 3]
      status_iterations [OF g, where evs = "[Start (Some ''true'') 10 50 0 0 (Some 1)]" and now = 3]
    by auto
qed



text \<open>
  Claim C4. In every reachable state, whatever its workers are doing, a call of
  \<open>stop_cpu_stress\<close> with the gate open succeeds; it sets the stop flag if there is one
  (the flag of every process the controller holds), then joins each held process with a
  timeout of one second, stores \<open>running = False\<close> and empties the handle list; it
  touches no process and no counter. After it, every \<open>stress_status\<close> reports
  \<open>running = False\<close>, whatever workers, further stops, status queries and rejected
  starts come in between, until a start is accepted.
\<close>

theorem stop_effect:
  fixes evs0 :: "event list" and env :: "string option"
  defines "s \<equiv> run evs0 sys_init"
  defines "out \<equiv> stop_cpu_stress env s"
  defines "s' \<equiv> snd (snd out)"
  assumes gate: "feature_enabled env"
  shows "fst out = Inr ''CPU stress test stopped''
     \<and> fst (snd out) = (case stop_flag s of None \<Rightarrow> [] | Some sf \<Rightarrow> [SetStop sf])
                         @ map (\<lambda>p. Join p (Some 1)) (cpu_stress_processes s)
     \<and> (\<forall>sf. stop_flag s = Some sf \<longrightarrow> flags s' ! sf = 1)
     \<and> (\<forall>h \<in> set (cpu_stress_processes s). flags s' ! w_flag (p_worker (procs s ! h)) = 1)
     \<and> sd_running (cpu_stress_status_data s') = Some False
     \<and> cpu_stress_processes s' = []
     \<and> procs s' = procs s \<and> counters s' = counters s
     \<and> (\<forall>evs env' now. list_all (\<lambda>e. \<not> started e) evs \<and> feature_enabled env' \<longrightarrow>
          (\<exists>snap. fst (stress_status env' now (run evs s')) = Inr snap
             \<and> \<not> running snap \<and> remaining_seconds snap = 0))"
proof -
  have refs: "refs_ok s" unfolding s_def by (rule refs_ok_reachable)
  have out: "out = (Inr ''CPU stress test stopped'',
     (case stop_flag s of None \<Rightarrow> [] | Some sf \<Rightarrow> [SetStop sf])
       @ map (\<lambda>p. Join p (Some 1)) (cpu_stress_processes s),
     s\<lparr>flags := (case stop_flag s of None \<Rightarrow> flags s | Some sf \<Rightarrow> (flags s)[sf := 1]),
       cpu_stress_status_data := (cpu_stress_status_data s)\<lparr>sd_running := Some False\<rparr>,
       cpu_stress_processes := []\<rparr>)"
    unfolding out_def by (rule stop_ok [OF gate])
  have flag: "\<forall>sf. stop_flag s = Some sf \<longrightarrow> flags s' ! sf = 1"
    using refs unfolding s'_def out refs_ok_def by auto
  have seen: "\<forall>h \<in> set (cpu_stress_processes s). flags s' ! w_flag (p_worker (procs s ! h)) = 1"
    using refs flag unfolding refs_ok_def by auto
  have idle: "idle s'" unfolding s'_def out by (simp add: idle_def)
  have later: "\<forall>evs env' now. list_all (\<lambda>e. \<not> started e) evs \<and> feature_enabled env' \<longrightarrow>
          (\<exists>snap. fst (stress_status env' now (run evs s')) = Inr snap
             \<and> \<not> running snap \<and> remaining_seconds snap = 0)"
    using idle by (blast intro: idle_status idle_run)
  show ?thesis
    using flag seen later unfolding s'_def out by simp
qed

theorem stop_effect_witness:
  "feature_enabled (Some ''true'')
   \<and> stop_flag (run [Start (Some ''true'') 10 50 0 0 (Some 1)] sys_init) = Some 0
   \<and> 0 \<in> set (cpu_stress_processes (run [Start (Some ''true'') 10 50 0 0 (Some 1)] sys_init))
   \<and> fst (snd (stop_cpu_stress (Some ''true'') (run [Start (Some ''true'') 10 50 0 0 (Some 1)] sys_init)))
        = [SetStop 0, Join 0 (Some 1)]
   \<and> flags (snd (snd (stop_cpu_stress (Some ''true'')
        (run [Start (Some ''true'') 10 50 0 0 (Some 1)] sys_init)))) ! 0 = 1
   \<and> list_all (\<lambda>e. \<not> started e) [Work 0 1, Status (Some ''true'') 2]
   \<and> (\<exists>snap. fst (stress_status (Some ''true'') 3 (run [Work 0 1, Status (Some ''true'') 2]
         (snd (snd (stop_cpu_stress (Some ''true'')
            (run [Start (Some ''true'') 10 50 0 0 (Some 1)] sys_init)))))) = Inr snap
        \<and> \<not> running snap)"
proof -
  have g: "feature_enabled (Some ''true'')" by (rule feature_enabled_true)
  have f: "stop_flag (run [Start (Some ''true'') 10 50 0 0 (Some 1)] sys_init) = Some 0"
    unfolding demo_state by simp
  have h: "0 \<in> set (cpu_stress_processes (run [Start (Some ''true'') 10 50 0 0 (Some 1)] sys_init))"
    unfolding demo_state by simp
  have e: "fst (snd (stop_cpu_stress (Some ''true'') (run [Start (Some ''true'') 10 50 0 0 (Some 1)] sys_init)))
        = [SetStop 0, Join 0 (Some 1)]"
    unfolding demo_state by (simp add: stop_ok [OF g])
  have n: "list_all (\<lambda>e. \<not> started e) [Work 0 1, Status (Some ''true'') 2]"
    by (simp add: started_def)
  show ?thesis
    using g f h e n stop_effect [OF g, where ?evs0.0 = "[Start (Some ''true'') 10 50 0 0 (Some 1)]"]
    by blast
qed

text \<open>
  Claim C5. With the gate open: before any start, \<open>stop_cpu_stress\<close> succeeds with no
  effect; the only change is that the dictionary now holds \<open>running = False\<close>, and a
  status query answers as it did before. In any state, a second stop right after a first
  succeeds and leaves the state of the first; the status observed after each is the same
  and has \<open>running = False\<close>. And in any state with no test in progress (the stored
  flag is not true, or the deadline has passed) a status query answers after the stop as
  it would have without it.
\<close>

theorem stop_idempotent:
  assumes gate: "feature_enabled env"
  shows "stop_cpu_stress env sys_init =
           (Inr ''CPU stress test stopped'', [],
            sys_init\<lparr>cpu_stress_status_data := empty_dict\<lparr>sd_running := Some False\<rparr>\<rparr>)
     \<and> fst (stress_status env now (snd (snd (stop_cpu_stress env sys_init))))
         = fst (stress_status env now sys_init)
     \<and> fst (stop_cpu_stress env (snd (snd (stop_cpu_stress env s)))) = Inr ''CPU stress test stopped''
     \<and> snd (snd (stop_cpu_stress env (snd (snd (stop_cpu_stress env s)))))
         = snd (snd (stop_cpu_stress env s))
     \<and> sd_running (cpu_stress_status_data (snd (snd (stop_cpu_stress env s)))) = Some False
     \<and> fst (stress_status env now (snd (snd (stop_cpu_stress env (snd (snd (stop_cpu_stress env s)))))))
         = fst (stress_status env now (snd (snd (stop_cpu_stress env s))))
     \<and> (\<exists>snap. fst (stress_status env now (snd (snd (stop_cpu_stress env s)))) = Inr snap
           \<and> \<not> running snap)
     \<and> (sd_running (cpu_stress_status_data s) \<noteq> Some True
          \<or> (\<exists>e. sd_end_time (cpu_stress_status_data s) = Some e \<and> e \<le> now) \<longrightarrow>
        fst (stress_status env now (snd (snd (stop_cpu_stress env s))))
          = fst (stress_status env now s))"
proof -
  have twice: "snd (snd (stop_cpu_stress env (snd (snd (stop_cpu_stress env s)))))
         = snd (snd (stop_cpu_stress env s))"
    by (cases "stop_flag s") (simp_all add: stop_ok [OF gate])
  have idle: "idle (snd (snd (stop_cpu_stress env s)))"
    by (simp add: stop_ok [OF gate] idle_def)
  have snap: "\<exists>snap. fst (stress_status env now (snd (snd (stop_cpu_stress env s)))) = Inr snap
           \<and> \<not> running snap"
    using idle_status [OF gate idle] by blast
  have noop: "sd_running (cpu_stress_status_data s) \<noteq> Some True
          \<or> (\<exists>e. sd_end_time (cpu_stress_status_data s) = Some e \<and> e \<le> now) \<longrightarrow>
        fst (stress_status env now (snd (snd (stop_cpu_stress env s))))
          = fst (stress_status env now s)"
    using gate
    by (auto simp: stop_ok [OF gate] stress_status_def remaining_time_def Let_def py_int_def
        split: option.splits)
  have init: "fst (stress_status env now (snd (snd (stop_cpu_stress env sys_init))))
         = fst (stress_status env now sys_init)"
    using gate
    by (simp add: stop_ok [OF gate] stress_status_def remaining_time_def Let_def py_int_def
        sys_init_def empty_dict_def)
  show ?thesis
    using twice snap noop init
    by (simp add: stop_ok [OF gate] sys_init_def)
qed

theorem stop_idempotent_witness:
  "feature_enabled (Some ''true'')
   \<and> sd_running (cpu_stress_status_data sys_init) \<noteq> Some True
   \<and> fst (stress_status (Some ''true'') 12 (snd (snd (stop_cpu_stress (Some ''true'') sys_init))))
       = fst (stress_status (Some ''true'') 12 sys_init)
   \<and> (\<exists>e. sd_end_time (cpu_stress_status_data (run [Start (Some ''true'') 10 50 0 0 (Some 1)] sys_init)) = Some e
          \<and> e \<le> 12)
   \<and> fst (stress_status (Some ''true'') 12 (snd (snd (stop_cpu_stress (Some ''true'')
         (run [Start (Some ''true'') 10 50 0 0 (Some 1)] sys_init)))))
       = fst (stress_status (Some ''true'') 12 (run [Start (Some ''true'') 10 50 0 0 (Some 1)] sys_init))
   \<and> snd (snd (stop_cpu_stress (Some ''true'') (snd (snd (stop_cpu_stress (Some ''true'')
         (run [Start (Some ''true'') 10 50 0 0 (Some 1)] sys_init))))))
       = snd (snd (stop_cpu_stress (Some ''true'') (run [Start (Some ''true'') 10 50 0 0 (Some 1)] sys_init)))"
proof -
  have g: "feature_enabled (Some ''true'')" by (rule feature_enabled_true)
  have a: "sd_running (cpu_stress_status_data sys_init) \<noteq> Some True"
    by (simp add: sys_init_def empty_dict_def)
  have b: "\<exists>e. sd_end_time (cpu_stress_status_data (run [Start (Some ''true'') 10 50 0 0 (Some 1)] sys_init)) = Some e
          \<and> e \<le> 12"
    unfolding demo_state by simp
  show ?thesis
    using g a b
      stop_idempotent [OF g, where s = sys_init and now = 12]
      stop_idempotent [OF g, where s = "run [Start (Some ''true'') 10 50 0 0 (Some 1)] sys_init" and now = 12]
    by blast
qed









section \<open>Superseding a run\<close>




lemma apply_event_procs_length: "length (procs s) \<le> length (procs (apply_event e s))"
proof (cases e)
  case (Start env d l t1 t2 n)
  show ?thesis
  proof (cases "started e")
    case True
    then show ?thesis by (simp add: Start started_def start_accepted)
  next
    case False
    then show ?thesis by (simp add: Start start_rejected)
  qed
next
  case (Stop env)
  then show ?thesis by (simp add: stop_cpu_stress_def)
next
  case (Status env now)
  then show ?thesis by (simp add: stress_status_def Let_def split: sum.splits)
next
  case (Work p t)
  then show ?thesis by simp
qed

lemma apply_event_worker:
  assumes "p < length (procs s)"
  shows "p_worker (procs (apply_event e s) ! p) =
     (case e of
        Work q t \<Rightarrow>
          if q = p \<and> \<not> p_signalled (procs s ! p)
          then snd (worker_step p t (counters s) (flags s) (p_worker (procs s ! p)))
          else p_worker (procs s ! p)
      | _ \<Rightarrow> p_worker (procs s ! p))"
proof (cases e)
  case (Start env d l t1 t2 n)
  show ?thesis
  proof (cases "started e")
    case True
    then show ?thesis using assms
      by (simp add: Start started_def start_accepted nth_append)
  next
    case False
    then show ?thesis by (simp add: Start start_rejected)
  qed
next
  case (Stop env)
  then show ?thesis by (simp add: stop_cpu_stress_def)
next
  case (Status env now)
  then show ?thesis by (simp add: stress_status_def Let_def split: sum.splits)
next
  case (Work q t)
  then show ?thesis using assms by (simp add: work_worker)
qed

lemma worker_inv_run:
  assumes step: "\<And>me t ts cs fs w. I w (t # ts) \<Longrightarrow> I (snd (worker_step me t cs fs w)) ts"
    and skip: "\<And>t ts w. I w (t # ts) \<Longrightarrow> I w ts"
  shows "p < length (procs s) \<Longrightarrow> I (p_worker (procs s ! p)) (work_times p evs)
    \<Longrightarrow> I (p_worker (procs (run evs s) ! p)) []"
proof (induction evs arbitrary: s)
  case Nil
  then show ?case by simp
next
  case (Cons e evs)
  have len: "p < length (procs (apply_event e s))"
    using Cons.prems(1) apply_event_procs_length [of s e] by simp
  have "I (p_worker (procs (apply_event e s) ! p)) (work_times p evs)"
  proof (cases e)
    case (Work q t)
    show ?thesis
    proof (cases "q = p")
      case True
      then show ?thesis using Cons.prems
        by (auto simp: Work work_worker intro: step skip)
    next
      case False
      then show ?thesis using Cons.prems by (simp add: Work work_worker)
    qed
  next
    case (Start env d l t1 t2 n)
    then show ?thesis using Cons.prems apply_event_worker [of p s e] by simp
  next
    case (Stop env)
    then show ?thesis using Cons.prems apply_event_worker [of p s e] by simp
  next
    case (Status env now)
    then show ?thesis using Cons.prems apply_event_worker [of p s e] by simp
  qed
  with len have "I (p_worker (procs (run evs (apply_event e s)) ! p)) []"
    by (rule Cons.IH)
  then show ?case by simp
qed





lemma overdue_step: "overdue w (t # ts) \<Longrightarrow> overdue (snd (worker_step me t cs fs w)) ts"
  by (cases "w_pc w") (auto simp: overdue_def worker_step_def Let_def)

lemma overdue_skip: "overdue w (t # ts) \<Longrightarrow> overdue w ts"
  by (auto simp: overdue_def)



lemma overdue_run:
  "p < length (procs s) \<Longrightarrow> overdue (p_worker (procs s ! p)) (work_times p evs)
    \<Longrightarrow> overdue (p_worker (procs (run evs s) ! p)) []"
  by (rule worker_inv_run [where I = overdue, OF overdue_step overdue_skip])

lemma solo_step:
  assumes "lock_avail me cs w" "exit_at fs w t" "\<forall>t' \<in> set ts. exit_at fs w t'"
  shows "lock_avail me (fst (worker_step me t cs fs w)) (snd (worker_step me t cs fs w))
     \<and> (\<forall>t' \<in> set ts. exit_at fs (snd (worker_step me t cs fs w)) t')
     \<and> steps_left (w_pc (snd (worker_step me t cs fs w))) \<le> steps_left (w_pc w) - 1"
  using assms
  by (cases "w_pc w")
     (auto simp: lock_avail_def exit_at_def worker_step_def Let_def split: option.splits)

lemma solo_run:
  assumes "p < length (procs s)" "\<not> p_signalled (procs s ! p)"
    "lock_avail p (counters s) (p_worker (procs s ! p))"
    "\<forall>t \<in> set ts. exit_at (flags s) (p_worker (procs s ! p)) t"
    "steps_left (w_pc (p_worker (procs s ! p))) \<le> length ts"
  shows "w_pc (p_worker (procs (run (map (Work p) ts) s) ! p)) = Returned"
  using assms
proof (induction ts arbitrary: s)
  case Nil
  then show ?case by (cases "w_pc (p_worker (procs s ! p))") simp_all
next
  case (Cons t ts)
  let ?w = "p_worker (procs s ! p)"
  let ?r = "worker_step p t (counters s) (flags s) ?w"
  let ?s' = "work p t s"
  have step: "lock_avail p (fst ?r) (snd ?r)
     \<and> (\<forall>t' \<in> set ts. exit_at (flags s) (snd ?r) t')
     \<and> steps_left (w_pc (snd ?r)) \<le> steps_left (w_pc ?w) - 1"
    using Cons.prems by (intro solo_step) simp_all
  have cs: "counters ?s' = fst ?r"
    using Cons.prems(1,2) by (cases ?r) (simp add: work_def)
  have wk: "p_worker (procs ?s' ! p) = snd ?r"
    using Cons.prems(1,2) by (simp add: work_worker)
  have "w_pc (p_worker (procs (run (map (Work p) ts) ?s') ! p)) = Returned"
  proof (rule Cons.IH)
    show "p < length (procs ?s')" using Cons.prems(1) by simp
    show "\<not> p_signalled (procs ?s' ! p)" using Cons.prems(2) by simp
    show "lock_avail p (counters ?s') (p_worker (procs ?s' ! p))"
      using step by (simp add: cs wk)
    show "\<forall>t \<in> set ts. exit_at (flags ?s') (p_worker (procs ?s' ! p)) t"
      using step by (simp add: wk)
    show "steps_left (w_pc (p_worker (procs ?s' ! p))) \<le> length ts"
      using step Cons.prems(5) by (auto simp: wk)
  qed
  then show ?case by simp
qed

lemma steps_left_bound: "steps_left pc \<le> 9"
  by (cases pc) simp_all

lemma returned_step: "w_pc w = Returned \<Longrightarrow> worker_step me t cs fs w = (cs, w)"
  by (simp add: worker_step_def)

lemma first_start:
  "0 < d \<Longrightarrow> 0 \<le> l \<Longrightarrow> l \<le> 100 \<Longrightarrow>
   snd (snd (start_cpu_stress (Some ''true'') d l t t (Some (Suc 0)) sys_init)) =
    \<lparr>cpu_stress_processes = [0], global_iterations = Some 0, stop_flag = Some 0,
      cpu_stress_end_time = Some (t + of_int d),
      cpu_stress_status_data = \<lparr>sd_running = Some True, sd_start_time = Some t,
         sd_duration = Some d, sd_end_time = Some (t + of_int d), sd_load = Some l,
         sd_workers = Some (Suc 0)\<rparr>,
      counters = [\<lparr>sv_value = 0, sv_lock = None\<rparr>], flags = [0],
      procs = [\<lparr>p_worker = cpu_worker_init (t + of_int d) l (1 / 10) 0 0, p_signalled = False\<rparr>]\<rparr>"
  by (simp add: start_accepted feature_enabled_true worker_count_def sys_init_def)

lemma demo_stopped:
  "run [Start (Some ''true'') 10 50 0 0 (Some 1), Stop (Some ''true'')] sys_init =
    \<lparr>cpu_stress_processes = [], global_iterations = Some 0, stop_flag = Some 0,
      cpu_stress_end_time = Some 10,
      cpu_stress_status_data = \<lparr>sd_running = Some False, sd_start_time = Some 0,
         sd_duration = Some 10, sd_end_time = Some 10, sd_load = Some 50, sd_workers = Some 1\<rparr>,
      counters = [\<lparr>sv_value = 0, sv_lock = None\<rparr>], flags = [1],
      procs = [\<lparr>p_worker = cpu_worker_init 10 50 (1 / 10) 0 0, p_signalled = False\<rparr>]\<rparr>"
  by (simp add: first_start stop_ok feature_enabled_true)

section \<open>The worker\<close>



text \<open>
  Claim C7. A worker launched with a deadline \<open>e\<close> that none of its clock readings
  precedes completes no increment in any execution, and is only ever at the loop test
  or returned; its first step returns, changes no counter, and it stays returned with
  zero increments. In general the loop test of line 32 continues to line 33 if
  \<open>now < end_time\<close> and the stop flag is not set, and returns otherwise. And a worker at
  any control point, not signalled, whose lock no other process holds, returns within
  nine of its own steps once every reading finds the stop flag set, or finds the
  deadline and the end of the busy phase in progress passed.
\<close>

theorem worker_terminates:
  "(p < length (procs s) \<and> p_worker (procs s ! p) = cpu_worker_init e l c gi sf
      \<and> (\<forall>t \<in> set (work_times p evs). e \<le> t) \<longrightarrow>
        w_incs (p_worker (procs (run evs s) ! p)) = 0
      \<and> w_pc (p_worker (procs (run evs s) ! p)) \<in> {L32, Returned})
   \<and> (p < length (procs s) \<and> p_worker (procs s ! p) = cpu_worker_init e l c gi sf
      \<and> \<not> p_signalled (procs s ! p) \<and> e \<le> t \<longrightarrow>
        counters (work p t s) = counters s
      \<and> w_pc (p_worker (procs (run evs (work p t s)) ! p)) = Returned
      \<and> w_incs (p_worker (procs (run evs (work p t s)) ! p)) = 0)
   \<and> (w_pc w = L32 \<longrightarrow>
        w_pc (snd (worker_step me t cs fs w))
          = (if t < w_end_time w \<and> fs ! w_flag w = 0 then L33 else Returned))
   \<and> (p < length (procs s) \<and> \<not> p_signalled (procs s ! p)
      \<and> lock_avail p (counters s) (p_worker (procs s ! p))
      \<and> (\<forall>t \<in> set ts. exit_at (flags s) (p_worker (procs s ! p)) t)
      \<and> 9 \<le> length ts \<longrightarrow>
        w_pc (p_worker (procs (run (map (Work p) ts) s) ! p)) = Returned)"
proof -
  have late: "p < length (procs s) \<and> p_worker (procs s ! p) = cpu_worker_init e l c gi sf
      \<and> (\<forall>t \<in> set (work_times p evs). e \<le> t) \<longrightarrow>
        w_incs (p_worker (procs (run evs s) ! p)) = 0
      \<and> w_pc (p_worker (procs (run evs s) ! p)) \<in> {L32, Returned}"
  proof
    assume h: "p < length (procs s) \<and> p_worker (procs s ! p) = cpu_worker_init e l c gi sf
      \<and> (\<forall>t \<in> set (work_times p evs). e \<le> t)"
    then have "overdue (p_worker (procs s ! p)) (work_times p evs)"
      by (simp add: overdue_def)
    with h have "overdue (p_worker (procs (run evs s) ! p)) []"
      by (intro overdue_run) simp_all
    then show "w_incs (p_worker (procs (run evs s) ! p)) = 0
      \<and> w_pc (p_worker (procs (run evs s) ! p)) \<in> {L32, Returned}"
      by (simp add: overdue_def)
  qed
  have first: "p < length (procs s) \<and> p_worker (procs s ! p) = cpu_worker_init e l c gi sf
      \<and> \<not> p_signalled (procs s ! p) \<and> e \<le> t \<longrightarrow>
        counters (work p t s) = counters s
      \<and> w_pc (p_worker (procs (run evs (work p t s)) ! p)) = Returned
      \<and> w_incs (p_worker (procs (run evs (work p t s)) ! p)) = 0"
  proof
    assume h: "p < length (procs s) \<and> p_worker (procs s ! p) = cpu_worker_init e l c gi sf
      \<and> \<not> p_signalled (procs s ! p) \<and> e \<le> t"
    let ?s' = "work p t s"
    have r: "worker_step p t (counters s) (flags s) (cpu_worker_init e l c gi sf)
        = (counters s, (cpu_worker_init e l c gi sf)\<lparr>w_pc := Returned\<rparr>)"
      using h by (simp add: worker_step_def Let_def)
    have cs: "counters ?s' = counters s"
      using h r by (simp add: work_def)
    have wk: "p_worker (procs ?s' ! p) = (cpu_worker_init e l c gi sf)\<lparr>w_pc := Returned\<rparr>"
      using h r by (simp add: work_worker)
    define I where "I = (\<lambda>(w :: worker) (ts :: time list). w_pc w = Returned \<and> w_incs w = 0)"
    have "I (p_worker (procs (run evs ?s') ! p)) []"
    proof (rule worker_inv_run [where I = I])
      show "\<And>me t ts cs fs w. I w (t # ts) \<Longrightarrow> I (snd (worker_step me t cs fs w)) ts"
        by (simp add: I_def returned_step)
      show "\<And>t ts w. I w (t # ts) \<Longrightarrow> I w ts" by (simp add: I_def)
      show "p < length (procs ?s')" using h by simp
      show "I (p_worker (procs ?s' ! p)) (work_times p evs)" by (simp add: I_def wk)
    qed
    then show "counters ?s' = counters s
      \<and> w_pc (p_worker (procs (run evs ?s') ! p)) = Returned
      \<and> w_incs (p_worker (procs (run evs ?s') ! p)) = 0"
      using cs by (simp add: I_def)
  qed
  have head: "w_pc w = L32 \<longrightarrow>
        w_pc (snd (worker_step me t cs fs w))
          = (if t < w_end_time w \<and> fs ! w_flag w = 0 then L33 else Returned)"
    by (simp add: worker_step_def Let_def)
  have bounded: "p < length (procs s) \<and> \<not> p_signalled (procs s ! p)
      \<and> lock_avail p (counters s) (p_worker (procs s ! p))
      \<and> (\<forall>t \<in> set ts. exit_at (flags s) (p_worker (procs s ! p)) t)
      \<and> 9 \<le> length ts \<longrightarrow>
        w_pc (p_worker (procs (run (map (Work p) ts) s) ! p)) = Returned"
  proof
    assume h: "p < length (procs s) \<and> \<not> p_signalled (procs s ! p)
      \<and> lock_avail p (counters s) (p_worker (procs s ! p))
      \<and> (\<forall>t \<in> set ts. exit_at (flags s) (p_worker (procs s ! p)) t)
      \<and> 9 \<le> length ts"
    then have "steps_left (w_pc (p_worker (procs s ! p))) \<le> length ts"
      using steps_left_bound [of "w_pc (p_worker (procs s ! p))"] by simp
    with h show "w_pc (p_worker (procs (run (map (Work p) ts) s) ! p)) = Returned"
      by (intro solo_run) simp_all
  qed
  show ?thesis using late first head bounded by blast
qed

theorem worker_terminates_witness:
  "0 < length (procs (run [Start (Some ''true'') 10 50 0 0 (Some 1)] sys_init))
   \<and> p_worker (procs (run [Start (Some ''true'') 10 50 0 0 (Some 1)] sys_init) ! 0)
       = cpu_worker_init 10 50 (1 / 10) 0 0
   \<and> \<not> p_signalled (procs (run [Start (Some ''true'') 10 50 0 0 (Some 1)] sys_init) ! 0)
   \<and> work_times 0 [Work 0 11, Status (Some ''true'') 12, Work 0 12] = [11, 12]
   \<and> w_incs (p_worker (procs (run [Work 0 11, Status (Some ''true'') 12, Work 0 12]
        (run [Start (Some ''true'') 10 50 0 0 (Some 1)] sys_init)) ! 0)) = 0
   \<and> w_pc (p_worker (procs (run [] (work 0 11 (run [Start (Some ''true'') 10 50 0 0 (Some 1)] sys_init))) ! 0))
       = Returned
   \<and> w_pc (snd (worker_step 0 11 [] [0] (cpu_worker_init 10 50 (1 / 10) 0 0))) = Returned
   \<and> flags (run [Start (Some ''true'') 10 50 0 0 (Some 1), Stop (Some ''true'')] sys_init) = [1]
   \<and> w_pc (p_worker (procs (run (map (Work 0) [1, 1, 1, 1, 1, 1, 1, 1, 1])
        (run [Start (Some ''true'') 10 50 0 0 (Some 1), Stop (Some ''true'')] sys_init)) ! 0)) = Returned"
proof -
  have p: "0 < length (procs (run [Start (Some ''true'') 10 50 0 0 (Some 1)] sys_init))"
    unfolding demo_state by simp
  have f: "p_worker (procs (run [Start (Some ''true'') 10 50 0 0 (Some 1)] sys_init) ! 0)
       = cpu_worker_init 10 50 (1 / 10) 0 0"
    unfolding demo_state by simp
  have u: "\<not> p_signalled (procs (run [Start (Some ''true'') 10 50 0 0 (Some 1)] sys_init) ! 0)"
    unfolding demo_state by simp
  have late: "\<forall>t \<in> set (work_times 0 [Work 0 11, Status (Some ''true'') 12, Work 0 12]). (10::rat) \<le> t"
    by simp
  have pc: "w_pc (cpu_worker_init 10 50 (1 / 10) 0 0) = L32" by simp
  have p2: "0 < length (procs (run [Start (Some ''true'') 10 50 0 0 (Some 1), Stop (Some ''true'')] sys_init))"
    unfolding demo_stopped by simp
  have u2: "\<not> p_signalled (procs (run [Start (Some ''true'') 10 50 0 0 (Some 1), Stop (Some ''true'')] sys_init) ! 0)"
    unfolding demo_stopped by simp
  have la: "lock_avail 0 (counters (run [Start (Some ''true'') 10 50 0 0 (Some 1), Stop (Some ''true'')] sys_init))
        (p_worker (procs (run [Start (Some ''true'') 10 50 0 0 (Some 1), Stop (Some ''true'')] sys_init) ! 0))"
    unfolding demo_stopped by (simp add: lock_avail_def)
  have ex: "\<forall>t \<in> set [1, 1, 1, 1, 1, 1, 1, 1, 1 :: rat].
        exit_at (flags (run [Start (Some ''true'') 10 50 0 0 (Some 1), Stop (Some ''true'')] sys_init))
          (p_worker (procs (run [Start (Some ''true'') 10 50 0 0 (Some 1), Stop (Some ''true'')] sys_init) ! 0)) t"
    unfolding demo_stopped by (simp add: exit_at_def)
  have len: "9 \<le> length [1, 1, 1, 1, 1, 1, 1, 1, 1 :: rat]" by simp
  have t: "(10::rat) \<le> 11" by simp
  note w1 = worker_terminates [where p = 0 and s = "run [Start (Some ''true'') 10 50 0 0 (Some 1)] sys_init"
        and e = 10 and l = 50 and c = "1 / 10" and gi = 0 and sf = 0 and t = 11
        and evs = "[Work 0 11, Status (Some ''true'') 12, Work 0 12]"
        and w = "cpu_worker_init 10 50 (1 / 10) 0 0" and me = 0 and cs = "[]" and fs = "[0]"
        and ts = "[]"]
  note w2 = worker_terminates [where p = 0 and s = "run [Start (Some ''true'') 10 50 0 0 (Some 1)] sys_init"
        and e = 10 and l = 50 and c = "1 / 10" and gi = 0 and sf = 0 and t = 11
        and evs = "[]"
        and w = "cpu_worker_init 10 50 (1 / 10) 0 0" and me = 0 and cs = "[]" and fs = "[0]"
        and ts = "[]"]
  note w3 = worker_terminates [where p = 0
        and s = "run [Start (Some ''true'') 10 50 0 0 (Some 1), Stop (Some ''true'')] sys_init"
        and ts = "[1, 1, 1, 1, 1, 1, 1, 1, 1]"]
  have a: "w_incs (p_worker (procs (run [Work 0 11, Status (Some ''true'') 12, Work 0 12]
        (run [Start (Some ''true'') 10 50 0 0 (Some 1)] sys_init)) ! 0)) = 0"
    using w1 p f late by blast
  have b: "w_pc (p_worker (procs (run [] (work 0 11 (run [Start (Some ''true'') 10 50 0 0 (Some 1)] sys_init))) ! 0))
       = Returned"
    using w2 p f u t by blast
  have c: "w_pc (snd (worker_step 0 11 [] [0] (cpu_worker_init 10 50 (1 / 10) 0 0))) = Returned"
    using w1 pc by simp
  have d: "w_pc (p_worker (procs (run (map (Work 0) [1, 1, 1, 1, 1, 1, 1, 1, 1])
        (run [Start (Some ''true'') 10 50 0 0 (Some 1), Stop (Some ''true'')] sys_init)) ! 0)) = Returned"
    using w3 p2 u2 la ex len by blast
  have wt: "work_times 0 [Work 0 11, Status (Some ''true'') 12, Work 0 12] = [11, 12]"
    by simp
  have fl: "flags (run [Start (Some ''true'') 10 50 0 0 (Some 1), Stop (Some ''true'')] sys_init) = [1]"
    unfolding demo_stopped by simp
  show ?thesis using p f u wt a b c d fl by blast
qed

lemma incs_on_update:
  "p < length ps \<Longrightarrow>
   incs_on a (ps[p := x]) + (if w_counter (p_worker (ps ! p)) = a then w_incs (p_worker (ps ! p)) else 0)
     = incs_on a ps + (if w_counter (p_worker x) = a then w_incs (p_worker x) else 0)"
proof (induction ps arbitrary: p)
  case Nil
  then show ?case by simp
next
  case (Cons q ps)
  show ?case
  proof (cases p)
    case 0
    then show ?thesis by (simp add: incs_on_def)
  next
    case (Suc k)
    with Cons.prems have "k < length ps" by simp
    from Cons.IH [OF this] show ?thesis
      by (auto simp: Suc incs_on_def split: if_splits)
  qed
qed

lemma incs_on_update_same:
  assumes "p < length ps" "w_counter (p_worker x) = w_counter (p_worker (ps ! p))"
    "w_incs (p_worker x) = w_incs (p_worker (ps ! p))"
  shows "incs_on a (ps[p := x]) = incs_on a ps"
  using incs_on_update [OF assms(1), of a x] assms(2,3) by (auto split: if_splits)

lemma incs_on_update_inc:
  assumes "p < length ps" "w_counter (p_worker x) = w_counter (p_worker (ps ! p))"
    "w_incs (p_worker x) = Suc (w_incs (p_worker (ps ! p)))"
  shows "incs_on a (ps[p := x])
     = (if w_counter (p_worker (ps ! p)) = a then Suc (incs_on a ps) else incs_on a ps)"
  using incs_on_update [OF assms(1), of a x] assms(2,3) by (auto split: if_splits)

lemma incs_on_append: "incs_on a (ps @ qs) = incs_on a ps + incs_on a qs"
  by (simp add: incs_on_def)

lemma incs_on_fresh: "w_incs (p_worker x) = 0 \<Longrightarrow> incs_on a (replicate n x) = 0"
  by (induction n) (simp_all add: incs_on_def)

lemma incs_on_unbound: "\<forall>q \<in> set ps. w_counter (p_worker q) \<noteq> a \<Longrightarrow> incs_on a ps = 0"
  by (induction ps) (simp_all add: incs_on_def)

lemma terminate_all_workers: "map p_worker (terminate_all hs ps) = map p_worker ps"
  by (rule nth_equalityI) simp_all

lemma incs_on_workers: "map p_worker ps = map p_worker qs \<Longrightarrow> incs_on a ps = incs_on a qs"
proof -
  assume h: "map p_worker ps = map p_worker qs"
  have "incs_on a ps = sum_list (map (\<lambda>w. if w_counter w = a then w_incs w else 0) (map p_worker ps))"
    by (simp add: incs_on_def comp_def)
  also have "\<dots> = sum_list (map (\<lambda>w. if w_counter w = a then w_incs w else 0) (map p_worker qs))"
    by (simp only: h)
  also have "\<dots> = incs_on a qs"
    by (simp add: incs_on_def comp_def)
  finally show ?thesis .
qed

lemma incs_on_terminate_all [simp]: "incs_on a (terminate_all hs ps) = incs_on a ps"
  by (rule incs_on_workers) (rule terminate_all_workers)

lemma lock_ok_init: "lock_ok sys_init"
  by (simp add: lock_ok_def sys_init_def)

lemma of_int_sint_succ: "word_of_int (sint (v :: 32 word) + 1) = v + 1"
  by simp

lemma incs_on_worker_same:
  "p < length ps \<Longrightarrow> w_counter w' = w_counter (p_worker (ps ! p))
    \<Longrightarrow> w_incs w' = w_incs (p_worker (ps ! p))
    \<Longrightarrow> incs_on b (ps[p := (ps ! p)\<lparr>p_worker := w'\<rparr>]) = incs_on b ps"
  by (rule incs_on_update_same) simp_all

lemma incs_on_worker_inc:
  "p < length ps \<Longrightarrow> w_counter w' = w_counter (p_worker (ps ! p))
    \<Longrightarrow> w_incs w' = Suc (w_incs (p_worker (ps ! p)))
    \<Longrightarrow> incs_on b (ps[p := (ps ! p)\<lparr>p_worker := w'\<rparr>])
        = (if w_counter (p_worker (ps ! p)) = b then Suc (incs_on b ps) else incs_on b ps)"
  by (rule incs_on_update_inc) simp_all

lemma lock_ok_work:
  assumes inv: "lock_ok s" and refs: "refs_ok s"
  shows "lock_ok (work p t s)"
proof (cases "p < length (procs s) \<and> \<not> p_signalled (procs s ! p)")
  case False
  then show ?thesis using inv by (auto simp: work_def)
next
  case True
  define w where "w = p_worker (procs s ! p)"
  define a where "a = w_counter w"
  define c where "c = counters s ! a"
  have p: "p < length (procs s)" using True by simp
  have a: "a < length (counters s)"
    using refs p by (simp add: refs_ok_def a_def w_def)
  have rng: "\<And>q. q < length (procs s) \<Longrightarrow> w_counter (p_worker (procs s ! q)) < length (counters s)"
    using refs by (simp add: refs_ok_def)
  have v: "\<And>b. b < length (counters s) \<Longrightarrow> sv_value (counters s ! b) = of_nat (incs_on b (procs s))"
    using inv by (simp add: lock_ok_def)
  have h: "\<And>q. q < length (procs s) \<Longrightarrow> in_with (w_pc (p_worker (procs s ! q)))
      \<Longrightarrow> sv_lock (counters s ! w_counter (p_worker (procs s ! q))) = Some q"
    using inv by (simp add: lock_ok_def)
  have tm: "\<And>q. q < length (procs s) \<Longrightarrow> w_pc (p_worker (procs s ! q)) = L38_store
      \<Longrightarrow> w_tmp (p_worker (procs s ! q)) = sint (sv_value (counters s ! w_counter (p_worker (procs s ! q))))"
    using inv by (simp add: lock_ok_def)
  have own: "\<And>b q. b < length (counters s) \<Longrightarrow> sv_lock (counters s ! b) = Some q
      \<Longrightarrow> q < length (procs s) \<and> w_counter (p_worker (procs s ! q)) = b
          \<and> in_with (w_pc (p_worker (procs s ! q)))"
    using inv unfolding lock_ok_def by blast
  have step: "work p t s = (case worker_step p t (counters s) (flags s) w of
      (cs, w') \<Rightarrow> s\<lparr>counters := cs, procs := (procs s)[p := (procs s ! p)\<lparr>p_worker := w'\<rparr>]\<rparr>)"
    using True by (simp add: work_def w_def)
  consider (quiet) "w_pc w \<in> {L32, L33, L35, L36, L39, L40, Returned}"
    | (wait) q where "w_pc w = L37" "sv_lock c = Some q"
    | (acquire) "w_pc w = L37" "sv_lock c = None"
    | (load) "w_pc w = L38_load" | (store) "w_pc w = L38_store" | (release) "w_pc w = L38_release"
    by (cases "w_pc w"; cases "sv_lock c") auto
  then show ?thesis
  proof cases
    case quiet
    then obtain w' where s': "work p t s = s\<lparr>procs := (procs s)[p := (procs s ! p)\<lparr>p_worker := w'\<rparr>]\<rparr>"
      and w': "w_counter w' = a" "w_incs w' = w_incs w" "\<not> in_with (w_pc w')" "\<not> in_with (w_pc w)"
        "w_pc w' \<noteq> L38_store"
      unfolding step
      by (cases "w_pc w") (auto simp: worker_step_def Let_def a_def in_with_def)
    have i: "\<And>b. incs_on b ((procs s)[p := (procs s ! p)\<lparr>p_worker := w'\<rparr>]) = incs_on b (procs s)"
      using p w' by (intro incs_on_update_same) (simp_all add: a_def w_def)
    show ?thesis
      unfolding s' lock_ok_def
      using w' p
      by (auto simp: i v nth_list_update h tm w_def a_def dest: own)
  next
    case wait
    then have "work p t s = s\<lparr>procs := (procs s)[p := (procs s ! p)]\<rparr>"
      unfolding step by (simp add: worker_step_def Let_def c_def a_def w_def)
    then have "work p t s = s" by simp
    then show ?thesis using inv by simp
  next
    case acquire
    let ?w' = "w\<lparr>w_pc := L38_load\<rparr>"
    have s': "work p t s = s\<lparr>counters := (counters s)[a := c\<lparr>sv_lock := Some p\<rparr>],
        procs := (procs s)[p := (procs s ! p)\<lparr>p_worker := ?w'\<rparr>]\<rparr>"
      unfolding step using acquire by (simp add: worker_step_def Let_def c_def a_def)
    have free: "\<And>q. q < length (procs s) \<Longrightarrow> in_with (w_pc (p_worker (procs s ! q)))
        \<Longrightarrow> w_counter (p_worker (procs s ! q)) \<noteq> a"
      using h acquire(2) by (auto simp: c_def)
    show ?thesis
      unfolding s' lock_ok_def
      using p a acquire(1)
      by (auto simp: incs_on_worker_same v nth_list_update h tm w_def a_def c_def in_with_def dest: own free)
  next
    case load
    let ?w' = "w\<lparr>w_tmp := sint (sv_value c), w_pc := L38_store\<rparr>"
    have s': "work p t s = s\<lparr>procs := (procs s)[p := (procs s ! p)\<lparr>p_worker := ?w'\<rparr>]\<rparr>"
      unfolding step using load by (simp add: worker_step_def Let_def c_def a_def)
    have mine: "sv_lock (counters s ! a) = Some p"
      using h [OF p] load by (simp add: w_def a_def in_with_def)
    show ?thesis
      unfolding s' lock_ok_def
      using p a load mine
      by (auto simp: incs_on_worker_same v nth_list_update h tm w_def a_def c_def in_with_def dest: own)
  next
    case store
    let ?w' = "w\<lparr>w_pc := L38_release, w_incs := w_incs w + 1\<rparr>"
    have mine: "sv_lock (counters s ! a) = Some p"
      using h [OF p] store by (simp add: w_def a_def in_with_def)
    have tmp: "w_tmp w = sint (sv_value c)"
      using tm [OF p] store by (simp add: w_def a_def c_def)
    have s': "work p t s = s\<lparr>counters := (counters s)[a := c\<lparr>sv_value := sv_value c + 1\<rparr>],
        procs := (procs s)[p := (procs s ! p)\<lparr>p_worker := ?w'\<rparr>]\<rparr>"
      unfolding step using store by (simp add: worker_step_def Let_def c_def a_def tmp)
    have other: "\<And>q. q < length (procs s) \<Longrightarrow> q \<noteq> p \<Longrightarrow> in_with (w_pc (p_worker (procs s ! q)))
        \<Longrightarrow> w_counter (p_worker (procs s ! q)) \<noteq> a"
      using h mine by fastforce
    have store_cs: "\<And>q. q < length (procs s) \<Longrightarrow> q \<noteq> p \<Longrightarrow> w_pc (p_worker (procs s ! q)) = L38_store
        \<Longrightarrow> w_counter (p_worker (procs s ! q)) \<noteq> a"
      using other by (simp add: in_with_def)
    show ?thesis
      unfolding s' lock_ok_def
      using p a store mine
      by (auto simp: incs_on_worker_inc v nth_list_update h tm w_def a_def c_def in_with_def dest: own store_cs)
  next
    case release
    let ?w' = "w\<lparr>w_pc := L35\<rparr>"
    have mine: "sv_lock (counters s ! a) = Some p"
      using h [OF p] release by (simp add: w_def a_def in_with_def)
    have s': "work p t s = s\<lparr>counters := (counters s)[a := c\<lparr>sv_lock := None\<rparr>],
        procs := (procs s)[p := (procs s ! p)\<lparr>p_worker := ?w'\<rparr>]\<rparr>"
      unfolding step using release by (simp add: worker_step_def Let_def c_def a_def)
    have other: "\<And>q. q < length (procs s) \<Longrightarrow> q \<noteq> p \<Longrightarrow> in_with (w_pc (p_worker (procs s ! q)))
        \<Longrightarrow> w_counter (p_worker (procs s ! q)) \<noteq> a"
      using h mine by fastforce
    show ?thesis
      unfolding s' lock_ok_def
      using p a release mine
      by (auto simp: incs_on_worker_same v nth_list_update h tm w_def a_def c_def in_with_def dest: own other)
  qed
qed

lemma lock_ok_start:
  assumes inv: "lock_ok s" and refs: "refs_ok s"
    and a: "feature_enabled env" "0 < d" "0 \<le> l" "l \<le> 100"
  shows "lock_ok (snd (snd (start_cpu_stress env d l t1 t2 n s)))"
proof -
  have unbound: "incs_on (length (counters s)) (procs s) = 0"
  proof (rule incs_on_unbound, rule ballI)
    fix q assume "q \<in> set (procs s)"
    then obtain i where "i < length (procs s)" "q = procs s ! i"
      by (auto simp: in_set_conv_nth)
    with refs show "w_counter (p_worker q) \<noteq> length (counters s)"
      by (auto simp: refs_ok_def)
  qed
  have rng: "\<And>q. q < length (procs s) \<Longrightarrow> w_counter (p_worker (procs s ! q)) < length (counters s)"
    using refs by (simp add: refs_ok_def)
  have own: "\<And>b q. b < length (counters s) \<Longrightarrow> sv_lock (counters s ! b) = Some q
      \<Longrightarrow> q < length (procs s) \<and> w_counter (p_worker (procs s ! q)) = b
          \<and> in_with (w_pc (p_worker (procs s ! q)))"
    using inv unfolding lock_ok_def by blast
  have v: "\<And>b. b < length (counters s) \<Longrightarrow> sv_value (counters s ! b) = of_nat (incs_on b (procs s))"
    using inv by (simp add: lock_ok_def)
  have h: "\<And>q. q < length (procs s) \<Longrightarrow> in_with (w_pc (p_worker (procs s ! q)))
      \<Longrightarrow> sv_lock (counters s ! w_counter (p_worker (procs s ! q))) = Some q"
    using inv by (simp add: lock_ok_def)
  have tm: "\<And>q. q < length (procs s) \<Longrightarrow> w_pc (p_worker (procs s ! q)) = L38_store
      \<Longrightarrow> w_tmp (p_worker (procs s ! q)) = sint (sv_value (counters s ! w_counter (p_worker (procs s ! q))))"
    using inv by (simp add: lock_ok_def)
  let ?s' = "snd (snd (start_cpu_stress env d l t1 t2 n s))"
  let ?new = "\<lparr>p_worker = cpu_worker_init (t1 + of_int d) l (1 / 10) (length (counters s)) (length (flags s)),
             p_signalled = False\<rparr>"
  have cs: "counters ?s' = counters s @ [\<lparr>sv_value = 0, sv_lock = None\<rparr>]"
    and ps: "procs ?s' = terminate_all (cpu_stress_processes s) (procs s) @ replicate (worker_count n) ?new"
    by (simp_all add: start_accepted [OF a])
  have wk: "\<And>q. q < length (procs ?s') \<Longrightarrow>
      (q < length (procs s) \<and> p_worker (procs ?s' ! q) = p_worker (procs s ! q))
      \<or> (length (procs s) \<le> q \<and> p_worker (procs ?s' ! q) = p_worker ?new)"
    by (auto simp: ps nth_append)
  have c1: "\<forall>b < length (counters ?s'). sv_value (counters ?s' ! b) = of_nat (incs_on b (procs ?s'))"
    using unbound by (auto simp: cs ps nth_append incs_on_append incs_on_fresh v less_Suc_eq)
  have c2: "\<forall>q < length (procs ?s'). in_with (w_pc (p_worker (procs ?s' ! q))) \<longrightarrow>
          sv_lock (counters ?s' ! w_counter (p_worker (procs ?s' ! q))) = Some q"
  proof (intro allI impI)
    fix q assume q: "q < length (procs ?s')" and iw: "in_with (w_pc (p_worker (procs ?s' ! q)))"
    from wk [OF q] iw have old: "q < length (procs s)" "p_worker (procs ?s' ! q) = p_worker (procs s ! q)"
      by (auto simp: in_with_def)
    with iw h [OF old(1)] rng [OF old(1)]
    show "sv_lock (counters ?s' ! w_counter (p_worker (procs ?s' ! q))) = Some q"
      by (simp add: cs nth_append)
  qed
  have c3: "\<forall>q < length (procs ?s'). w_pc (p_worker (procs ?s' ! q)) = L38_store \<longrightarrow>
          w_tmp (p_worker (procs ?s' ! q))
            = sint (sv_value (counters ?s' ! w_counter (p_worker (procs ?s' ! q))))"
  proof (intro allI impI)
    fix q assume q: "q < length (procs ?s')" and st: "w_pc (p_worker (procs ?s' ! q)) = L38_store"
    from wk [OF q] st have old: "q < length (procs s)" "p_worker (procs ?s' ! q) = p_worker (procs s ! q)"
      by auto
    with st tm [OF old(1)] rng [OF old(1)]
    show "w_tmp (p_worker (procs ?s' ! q))
            = sint (sv_value (counters ?s' ! w_counter (p_worker (procs ?s' ! q))))"
      by (simp add: cs nth_append)
  qed
  have c4: "\<forall>b < length (counters ?s'). \<forall>q. sv_lock (counters ?s' ! b) = Some q \<longrightarrow>
          q < length (procs ?s') \<and> w_counter (p_worker (procs ?s' ! q)) = b
        \<and> in_with (w_pc (p_worker (procs ?s' ! q)))"
  proof (intro allI impI)
    fix b q assume b: "b < length (counters ?s')" and lk: "sv_lock (counters ?s' ! b) = Some q"
    from b lk have b': "b < length (counters s)" and lk': "sv_lock (counters s ! b) = Some q"
      by (auto simp: cs nth_append less_Suc_eq)
    from own [OF b' lk'] show "q < length (procs ?s') \<and> w_counter (p_worker (procs ?s' ! q)) = b
        \<and> in_with (w_pc (p_worker (procs ?s' ! q)))"
      by (simp add: ps nth_append)
  qed
  show ?thesis
    unfolding lock_ok_def using c1 c2 c3 c4 by blast
qed

lemma lock_ok_step:
  assumes inv: "lock_ok s" and refs: "refs_ok s"
  shows "lock_ok (apply_event e s)"
proof (cases e)
  case (Start env d l t1 t2 n)
  show ?thesis
  proof (cases "started e")
    case True
    then show ?thesis using inv refs
      by (simp add: Start started_def lock_ok_start)
  next
    case False
    then show ?thesis using inv by (simp add: Start start_rejected)
  qed
next
  case (Stop env)
  then show ?thesis using inv
    by (simp add: lock_ok_def stop_cpu_stress_def)
next
  case (Status env now)
  then show ?thesis using inv
    by (auto simp: lock_ok_def stress_status_def Let_def split: sum.splits)
next
  case (Work p t)
  then show ?thesis using inv refs by (simp add: lock_ok_work)
qed

lemma lock_ok_run: "lock_ok s \<Longrightarrow> refs_ok s \<Longrightarrow> lock_ok (run evs s)"
  by (induction evs arbitrary: s) (simp_all add: lock_ok_step refs_ok_step)

lemma lock_ok_reachable: "lock_ok (run evs sys_init)"
  by (simp add: lock_ok_run lock_ok_init refs_ok_init)

lemma run_append: "run (xs @ ys) s = run ys (run xs s)"
  by (induction xs arbitrary: s) simp_all

lemma counters_length_step: "length (counters s) \<le> length (counters (apply_event e s))"
proof (cases e)
  case (Start env d l t1 t2 n)
  show ?thesis
  proof (cases "started e")
    case True
    then show ?thesis by (simp add: Start started_def start_accepted)
  next
    case False
    then show ?thesis by (simp add: Start start_rejected)
  qed
next
  case (Stop env)
  then show ?thesis by (simp add: stop_cpu_stress_def)
next
  case (Status env now)
  then show ?thesis by (simp add: stress_status_def Let_def split: sum.splits)
next
  case (Work p t)
  then show ?thesis by simp
qed

lemma incs_on_step:
  assumes refs: "refs_ok s" and a: "a < length (counters s)"
  shows "incs_on a (procs (apply_event e s)) = incs_on a (procs s)
       \<or> incs_on a (procs (apply_event e s)) = Suc (incs_on a (procs s))"
proof (cases e)
  case (Start env d l t1 t2 n)
  show ?thesis
  proof (cases "started e")
    case True
    then show ?thesis
      by (simp add: Start started_def start_accepted incs_on_append incs_on_fresh)
  next
    case False
    then show ?thesis by (simp add: Start start_rejected)
  qed
next
  case (Stop env)
  then show ?thesis by (simp add: stop_cpu_stress_def)
next
  case (Status env now)
  then show ?thesis by (simp add: stress_status_def Let_def split: sum.splits)
next
  case (Work p t)
  show ?thesis
  proof (cases "p < length (procs s) \<and> \<not> p_signalled (procs s ! p)")
    case False
    then show ?thesis by (auto simp: Work work_def)
  next
    case True
    let ?w = "p_worker (procs s ! p)"
    let ?r = "worker_step p t (counters s) (flags s) ?w"
    have pr: "procs (work p t s) = (procs s)[p := (procs s ! p)\<lparr>p_worker := snd ?r\<rparr>]"
      using True by (cases ?r) (simp add: work_def)
    have "w_incs (snd ?r) = w_incs ?w \<or> w_incs (snd ?r) = Suc (w_incs ?w)"
      by (cases "w_pc ?w") (auto simp: worker_step_def Let_def split: option.splits)
    then show ?thesis
      using True by (auto simp: Work pr incs_on_worker_same incs_on_worker_inc)
  qed
qed

lemma incs_on_mono_run: "refs_ok s \<Longrightarrow> a < length (counters s)
    \<Longrightarrow> incs_on a (procs s) \<le> incs_on a (procs (run evs s))"
proof (induction evs arbitrary: s)
  case Nil
  then show ?case by simp
next
  case (Cons e evs)
  have "a < length (counters (apply_event e s))"
    using Cons.prems(2) counters_length_step [of s e] by simp
  with Cons.prems(1) have "incs_on a (procs (apply_event e s)) \<le> incs_on a (procs (run evs (apply_event e s)))"
    by (intro Cons.IH refs_ok_step)
  moreover have "incs_on a (procs s) \<le> incs_on a (procs (apply_event e s))"
    using incs_on_step [OF Cons.prems, of e] by auto
  ultimately show ?case by simp
qed

lemma wrap_run_state:
  "run wrap_run sys_init =
    \<lparr>cpu_stress_processes = [0], global_iterations = Some 0, stop_flag = Some 0,
      cpu_stress_end_time = Some 1,
      cpu_stress_status_data = \<lparr>sd_running = Some True, sd_start_time = Some 0,
         sd_duration = Some 1, sd_end_time = Some 1, sd_load = Some 100, sd_workers = Some 1\<rparr>,
      counters = [\<lparr>sv_value = 2147483647, sv_lock = Some 0\<rparr>], flags = [0],
      procs = [\<lparr>p_worker = (cpu_worker_init 1 100 (1 / 10) 0 0)
                  \<lparr>w_start_busy := 0, w_tmp := 2147483647, w_pc := L38_store, w_incs := 2147483647\<rparr>,
                p_signalled = False\<rparr>]\<rparr>"
proof -
  define S where "S = (\<lambda>(k :: nat) (tmp :: int) (pc :: wpc) (lk :: pid option).
    \<lparr>cpu_stress_processes = [0], global_iterations = Some 0, stop_flag = Some 0,
      cpu_stress_end_time = Some (1 :: rat),
      cpu_stress_status_data = \<lparr>sd_running = Some True, sd_start_time = Some 0,
         sd_duration = Some 1, sd_end_time = Some 1, sd_load = Some 100, sd_workers = Some 1\<rparr>,
      counters = [\<lparr>sv_value = of_nat k, sv_lock = lk\<rparr>], flags = [0 :: 8 word],
      procs = [\<lparr>p_worker = (cpu_worker_init 1 100 (1 / 10) 0 0)
                  \<lparr>w_start_busy := 0, w_tmp := tmp, w_pc := pc, w_incs := k\<rparr>,
                p_signalled = False\<rparr>]\<rparr>)"
  let ?x = "Work 0 0"
  have started: "run [Start (Some ''true'') 1 100 0 0 (Some 1)] sys_init
      = (S 0 0 L35 None)\<lparr>procs := [\<lparr>p_worker = cpu_worker_init 1 100 (1 / 10) 0 0, p_signalled = False\<rparr>]\<rparr>"
    by (simp add: first_start S_def)
  have enter: "run [?x, ?x] (run [Start (Some ''true'') 1 100 0 0 (Some 1)] sys_init) = S 0 0 L35 None"
    unfolding started
    by (simp add: S_def work_def worker_step_def Let_def cpu_worker_init_def)
  have round: "run [?x, ?x, ?x, ?x, ?x, ?x] (S k tmp L35 None)
      = S (Suc k) (sint (of_nat k :: 32 word)) L35 None" for k tmp
    by (simp add: S_def work_def worker_step_def Let_def cpu_worker_init_def)
  have six: "replicate 6 ?x = [?x, ?x, ?x, ?x, ?x, ?x]"
    by (simp add: numeral_eq_Suc)
  have rounds: "\<exists>tmp'. run (replicate (6 * n) ?x) (S k tmp L35 None) = S (k + n) tmp' L35 None" for n k tmp
  proof (induction n arbitrary: k tmp)
    case 0
    show ?case by (intro exI [of _ tmp]) simp
  next
    case (Suc n)
    have "replicate (6 * Suc n) ?x = replicate 6 ?x @ replicate (6 * n) ?x"
      by (simp add: replicate_add [symmetric])
    then have "run (replicate (6 * Suc n) ?x) (S k tmp L35 None)
        = run (replicate (6 * n) ?x) (S (Suc k) (sint (of_nat k :: 32 word)) L35 None)"
      by (simp only: run_append six round)
    with Suc.IH [of "Suc k" "sint (of_nat k :: 32 word)"] show ?case by simp
  qed
  have last: "run [?x, ?x, ?x, ?x] (S k tmp L35 None)
      = S k (sint (of_nat k :: 32 word)) L38_store (Some 0)" for k tmp
    by (simp add: S_def work_def worker_step_def Let_def cpu_worker_init_def)
  have split: "wrap_run = [Start (Some ''true'') 1 100 0 0 (Some 1)] @ [?x, ?x]
      @ replicate (6 * 2147483647) ?x @ [?x, ?x, ?x, ?x]"
  proof -
    have "(12884901888 :: nat) = 2 + (6 * 2147483647 + 4)" by simp
    then have "replicate 12884901888 ?x
        = replicate 2 ?x @ replicate (6 * 2147483647) ?x @ replicate 4 ?x"
      by (simp only: replicate_add)
    moreover have "replicate 2 ?x = [?x, ?x]" "replicate 4 ?x = [?x, ?x, ?x, ?x]"
      by (simp_all add: numeral_eq_Suc)
    ultimately show ?thesis by (simp add: wrap_run_def)
  qed
  obtain tmp' where many: "run (replicate (6 * 2147483647) ?x) (S 0 0 L35 None)
      = S (0 + 2147483647) tmp' L35 None"
    using rounds [of 2147483647 0 0] by blast
  have "run wrap_run sys_init = S 2147483647 (sint (of_nat 2147483647 :: 32 word)) L38_store (Some 0)"
    unfolding split run_append enter many by (simp only: last add_0)
  then show ?thesis by (simp add: S_def)
qed

lemma sint_succ: "(v :: 32 word) \<noteq> 2147483647 \<Longrightarrow> sint (v + 1) = sint v + 1"
proof -
  assume ne: "v \<noteq> 2147483647"
  have "sint v \<noteq> 2147483647"
  proof
    assume "sint v = 2147483647"
    then have "sint v = sint (2147483647 :: 32 word)" by simp
    then have "v = 2147483647" by (simp only: signed_word_eqI)
    with ne show False by simp
  qed
  moreover have "sint v < 2 ^ 31" using sint_lt [of v] by simp
  moreover have "- (2 ^ 31) \<le> sint v" using sint_ge [of v] by simp
  ultimately have "signed_take_bit 31 (sint v + 1) = sint v + 1"
    by (intro signed_take_bit_int_eq_self) simp_all
  then show ?thesis by (simp add: sint_word_ariths)
qed

lemma sint_small: "n < 2147483648 \<Longrightarrow> sint (word_of_nat n :: 32 word) = int n"
proof -
  assume "n < 2147483648"
  then have "signed_take_bit 31 (int n) = int n"
    by (intro signed_take_bit_int_eq_self) simp_all
  then show ?thesis by (simp add: signed_of_nat)
qed

lemma reachable_append: "run evs2 (run evs sys_init) = run (evs @ evs2) sys_init"
  by (simp add: run_append)

section \<open>The shared counter\<close>

text \<open>
  Claim C8, as amended. In every reachable state each counter holds the number of
  increments completed on it by all workers together, modulo \<open>2^32\<close>: no update is lost.
  Every step of the system, by a worker or by the controller, leaves that number and the
  counter unchanged or adds one to both; read as a signed C int, the counter does not
  decrease unless it stood at \<open>2^31 - 1\<close>. As long as fewer than \<open>2^31\<close> increments have
  been completed on the current counter and no start is accepted in between, a later
  status query reports at least the \<open>iterations\<close> of an earlier one, each being the number
  of completed increments.
\<close>

theorem counter_progress:
  fixes evs :: "event list" and e :: event
  defines "s \<equiv> run evs sys_init"
  defines "s' \<equiv> apply_event e s"
  shows "(\<forall>a < length (counters s).
            sv_value (counters s ! a) = of_nat (incs_on a (procs s))
          \<and> (incs_on a (procs s') = incs_on a (procs s) \<or> incs_on a (procs s') = Suc (incs_on a (procs s)))
          \<and> (sv_value (counters s' ! a) = sv_value (counters s ! a)
             \<or> sv_value (counters s' ! a) = sv_value (counters s ! a) + 1)
          \<and> (sv_value (counters s ! a) \<noteq> 2147483647 \<longrightarrow>
               sint (sv_value (counters s ! a)) \<le> sint (sv_value (counters s' ! a))))
     \<and> (\<forall>gi evs2 env now env2 now2.
           global_iterations s = Some gi \<and> list_all (\<lambda>e. \<not> started e) evs2
           \<and> feature_enabled env \<and> feature_enabled env2
           \<and> incs_on gi (procs (run evs2 s)) < 2147483648 \<longrightarrow>
           (\<exists>a b. fst (stress_status env now s) = Inr a
                \<and> fst (stress_status env2 now2 (run evs2 s)) = Inr b
                \<and> iterations a = int (incs_on gi (procs s))
                \<and> iterations b = int (incs_on gi (procs (run evs2 s)))
                \<and> iterations a \<le> iterations b))"
proof -
  have lock: "lock_ok s" and refs: "refs_ok s" and dict: "dict_ok s"
    unfolding s_def by (rule lock_ok_reachable refs_ok_reachable dict_ok_reachable)+
  have lock': "lock_ok s'" unfolding s'_def using lock refs by (rule lock_ok_step)
  have val: "\<And>b. b < length (counters s) \<Longrightarrow> sv_value (counters s ! b) = of_nat (incs_on b (procs s))"
    using lock by (simp add: lock_ok_def)
  have val': "\<And>b. b < length (counters s) \<Longrightarrow> sv_value (counters s' ! b) = of_nat (incs_on b (procs s'))"
  proof -
    fix b assume "b < length (counters s)"
    then have "b < length (counters s')"
      unfolding s'_def using counters_length_step [of s e] by simp
    with lock' show "sv_value (counters s' ! b) = of_nat (incs_on b (procs s'))"
      by (simp add: lock_ok_def)
  qed
  have part1: "\<forall>a < length (counters s).
            sv_value (counters s ! a) = of_nat (incs_on a (procs s))
          \<and> (incs_on a (procs s') = incs_on a (procs s) \<or> incs_on a (procs s') = Suc (incs_on a (procs s)))
          \<and> (sv_value (counters s' ! a) = sv_value (counters s ! a)
             \<or> sv_value (counters s' ! a) = sv_value (counters s ! a) + 1)
          \<and> (sv_value (counters s ! a) \<noteq> 2147483647 \<longrightarrow>
               sint (sv_value (counters s ! a)) \<le> sint (sv_value (counters s' ! a)))"
  proof (intro allI impI)
    fix a assume a: "a < length (counters s)"
    have st: "incs_on a (procs s') = incs_on a (procs s) \<or> incs_on a (procs s') = Suc (incs_on a (procs s))"
      unfolding s'_def using refs a by (rule incs_on_step)
    then have v: "sv_value (counters s' ! a) = sv_value (counters s ! a)
             \<or> sv_value (counters s' ! a) = sv_value (counters s ! a) + 1"
      by (auto simp: val [OF a] val' [OF a])
    have "sv_value (counters s ! a) \<noteq> 2147483647 \<longrightarrow>
               sint (sv_value (counters s ! a)) \<le> sint (sv_value (counters s' ! a))"
      using v by (auto simp: sint_succ)
    with st v val [OF a]
    show "sv_value (counters s ! a) = of_nat (incs_on a (procs s))
          \<and> (incs_on a (procs s') = incs_on a (procs s) \<or> incs_on a (procs s') = Suc (incs_on a (procs s)))
          \<and> (sv_value (counters s' ! a) = sv_value (counters s ! a)
             \<or> sv_value (counters s' ! a) = sv_value (counters s ! a) + 1)
          \<and> (sv_value (counters s ! a) \<noteq> 2147483647 \<longrightarrow>
               sint (sv_value (counters s ! a)) \<le> sint (sv_value (counters s' ! a)))"
      by blast
  qed
  have part2: "\<forall>gi evs2 env now env2 now2.
           global_iterations s = Some gi \<and> list_all (\<lambda>e. \<not> started e) evs2
           \<and> feature_enabled env \<and> feature_enabled env2
           \<and> incs_on gi (procs (run evs2 s)) < 2147483648 \<longrightarrow>
           (\<exists>a b. fst (stress_status env now s) = Inr a
                \<and> fst (stress_status env2 now2 (run evs2 s)) = Inr b
                \<and> iterations a = int (incs_on gi (procs s))
                \<and> iterations b = int (incs_on gi (procs (run evs2 s)))
                \<and> iterations a \<le> iterations b)"
  proof (intro allI impI)
    fix gi evs2 env now env2 now2
    assume h: "global_iterations s = Some gi \<and> list_all (\<lambda>e. \<not> started e) evs2
           \<and> feature_enabled env \<and> feature_enabled env2
           \<and> incs_on gi (procs (run evs2 s)) < 2147483648"
    let ?s2 = "run evs2 s"
    have s2: "?s2 = run (evs @ evs2) sys_init" unfolding s_def by (rule reachable_append)
    have lock2: "lock_ok ?s2" and refs2: "refs_ok ?s2" and dict2: "dict_ok ?s2"
      unfolding s2 by (rule lock_ok_reachable refs_ok_reachable dict_ok_reachable)+
    have gi2: "global_iterations ?s2 = Some gi"
      using h by (simp add: no_start_run)
    have gi: "gi < length (counters s)" using refs h by (simp add: refs_ok_def)
    have gi': "gi < length (counters ?s2)" using refs2 gi2 by (simp add: refs_ok_def)
    have mono: "incs_on gi (procs s) \<le> incs_on gi (procs ?s2)"
      using refs gi by (rule incs_on_mono_run)
    have v1: "sint (sv_value (counters s ! gi)) = int (incs_on gi (procs s))"
      using mono h by (simp add: val [OF gi] sint_small)
    have v2: "sint (sv_value (counters ?s2 ! gi)) = int (incs_on gi (procs ?s2))"
      using lock2 gi' h by (simp add: lock_ok_def sint_small)
    show "\<exists>a b. fst (stress_status env now s) = Inr a
                \<and> fst (stress_status env2 now2 ?s2) = Inr b
                \<and> iterations a = int (incs_on gi (procs s))
                \<and> iterations b = int (incs_on gi (procs ?s2))
                \<and> iterations a \<le> iterations b"
      using h gi2 v1 v2 mono
      by (simp add: status_ok [OF _ dict] status_ok [OF _ dict2])
  qed
  show ?thesis using part1 part2 by blast
qed

theorem counter_progress_witness:
  "0 < length (counters (run [Start (Some ''true'') 10 50 0 0 (Some 1)] sys_init))
   \<and> sv_value (counters (run [Start (Some ''true'') 10 50 0 0 (Some 1)] sys_init) ! 0) \<noteq> 2147483647
   \<and> sint (sv_value (counters (run [Start (Some ''true'') 10 50 0 0 (Some 1)] sys_init) ! 0))
       \<le> sint (sv_value (counters (apply_event (Work 0 1)
             (run [Start (Some ''true'') 10 50 0 0 (Some 1)] sys_init)) ! 0))
   \<and> global_iterations (run [Start (Some ''true'') 10 50 0 0 (Some 1)] sys_init) = Some 0
   \<and> list_all (\<lambda>e. \<not> started e) [Work 0 1, Status (Some ''true'') 2]
   \<and> feature_enabled (Some ''true'')
   \<and> incs_on 0 (procs (run [Work 0 1, Status (Some ''true'') 2]
        (run [Start (Some ''true'') 10 50 0 0 (Some 1)] sys_init))) < 2147483648
   \<and> (\<exists>a b. fst (stress_status (Some ''true'') 1 (run [Start (Some ''true'') 10 50 0 0 (Some 1)] sys_init)) = Inr a
        \<and> fst (stress_status (Some ''true'') 3 (run [Work 0 1, Status (Some ''true'') 2]
              (run [Start (Some ''true'') 10 50 0 0 (Some 1)] sys_init))) = Inr b
        \<and> iterations a \<le> iterations b)"
proof -
  have g: "feature_enabled (Some ''true'')" by (rule feature_enabled_true)
  have a: "0 < length (counters (run [Start (Some ''true'') 10 50 0 0 (Some 1)] sys_init))"
    unfolding demo_state by simp
  have v: "sv_value (counters (run [Start (Some ''true'') 10 50 0 0 (Some 1)] sys_init) ! 0) \<noteq> 2147483647"
    unfolding demo_state by simp
  have gi: "global_iterations (run [Start (Some ''true'') 10 50 0 0 (Some 1)] sys_init) = Some 0"
    unfolding demo_state by simp
  have n: "list_all (\<lambda>e. \<not> started e) [Work 0 1, Status (Some ''true'') 2]"
    by (simp add: started_def)
  have small: "incs_on 0 (procs (run [Work 0 1, Status (Some ''true'') 2]
        (run [Start (Some ''true'') 10 50 0 0 (Some 1)] sys_init))) < 2147483648"
    unfolding demo_state
    by (simp add: work_def worker_step_def Let_def stress_status_def remaining_time_def g
        incs_on_def cpu_worker_init_def)
  note w = counter_progress [where evs = "[Start (Some ''true'') 10 50 0 0 (Some 1)]" and e = "Work 0 1"]
  have one: "sint (sv_value (counters (run [Start (Some ''true'') 10 50 0 0 (Some 1)] sys_init) ! 0))
       \<le> sint (sv_value (counters (apply_event (Work 0 1)
             (run [Start (Some ''true'') 10 50 0 0 (Some 1)] sys_init)) ! 0))"
    using w a v by blast
  have two: "\<exists>a b. fst (stress_status (Some ''true'') 1 (run [Start (Some ''true'') 10 50 0 0 (Some 1)] sys_init)) = Inr a
        \<and> fst (stress_status (Some ''true'') 3 (run [Work 0 1, Status (Some ''true'') 2]
              (run [Start (Some ''true'') 10 50 0 0 (Some 1)] sys_init))) = Inr b
        \<and> iterations a \<le> iterations b"
    using w gi n g small by blast
  show ?thesis using g a v gi n small one two by blast
qed

theorem counter_monotone_counterexample:
  "fst (stress_status (Some ''true'') 0 (run wrap_run sys_init))
     = Inr \<lparr>running = True, remaining_seconds = 1, iterations = 2147483647\<rparr>
   \<and> fst (stress_status (Some ''true'') 0 (apply_event (Work 0 0) (run wrap_run sys_init)))
     = Inr \<lparr>running = True, remaining_seconds = 1, iterations = - 2147483648\<rparr>
   \<and> sint (sv_value (counters (apply_event (Work 0 0) (run wrap_run sys_init)) ! 0))
       < sint (sv_value (counters (run wrap_run sys_init) ! 0))"
  unfolding wrap_run_state
  by (simp add: stress_status_def remaining_time_def feature_enabled_true py_int_def Let_def
      work_def worker_step_def)

end
